theory Spec2Isabelle
  imports Main "HOL-Library.AList" "HOL-Library.Multiset"
begin

section \<open>Values of the host language\<close>

text \<open>
  The background worker is JavaScript. Everything it reads from the translation provider
  and from the durable store is a parsed JSON value, so the model carries JSON values and
  the few dynamic operations the worker applies to them: truthiness, property access,
  \<^verbatim>\<open>p[0]\<close>, \<^verbatim>\<open>Array.isArray\<close> and \<^verbatim>\<open>join('')\<close>.
  Numbers are integers (time stamps and counters; fractional settings and \<^verbatim>\<open>NaN\<close> are
  outside the model). The value \<^verbatim>\<open>undefined\<close> is \<open>None\<close> of \<open>json option\<close>.

  A string of the worker is a sequence of UTF-16 code units. The model holds it as the
  bytes of its generalised UTF-8 encoding: a surrogate pair is the four bytes of its code
  point, and a surrogate that is not half of a pair is the three bytes \<^verbatim>\<open>ED\<close>,
  \<^verbatim>\<open>A0\<close>..\<^verbatim>\<open>BF\<close>, \<^verbatim>\<open>80\<close>..\<^verbatim>\<open>BF\<close>. In well-formed text the byte \<^verbatim>\<open>ED\<close> is
  followed by a byte below \<^verbatim>\<open>A0\<close>. The worker compares the texts, targets and keys it
  is given and puts them together with ASCII separators, which the bytes do as the code
  units do.
\<close>

datatype json =
    JNull
  | JBool bool
  | JNum int
  | JStr string
  | JArr "json list"
  | JObj "(string \<times> json) list"

datatype js_error = TypeError

text \<open>\<^verbatim>\<open>if (x)\<close>, \<^verbatim>\<open>!x\<close>, \<^verbatim>\<open>x || y\<close>, \<^verbatim>\<open>x && y\<close> test this.\<close>

fun js_truthy :: "json \<Rightarrow> bool" where
  "js_truthy JNull = False"
| "js_truthy (JBool b) = b"
| "js_truthy (JNum n) = (n \<noteq> 0)"
| "js_truthy (JStr s) = (s \<noteq> [])"
| "js_truthy (JArr xs) = True"
| "js_truthy (JObj kvs) = True"

fun isArray :: "json option \<Rightarrow> bool" where
  "isArray (Some (JArr xs)) = True"
| "isArray x = False"

text \<open>
  \<^verbatim>\<open>x.name\<close> on a value that is not \<^verbatim>\<open>null\<close>: only an object parsed from JSON has the
  properties the worker asks for (\<^verbatim>\<open>data\<close>, \<^verbatim>\<open>translations\<close>, \<^verbatim>\<open>translatedText\<close>).
\<close>

fun js_prop :: "json \<Rightarrow> string \<Rightarrow> json option" where
  "js_prop (JObj kvs) name = map_of kvs name"
| "js_prop x name = None"

text \<open>
  \<^verbatim>\<open>p[0]\<close>: a \<^verbatim>\<open>TypeError\<close> on \<^verbatim>\<open>null\<close>, the first element of an array, the first
  character of a string (taken as its first byte, which is exact for an ASCII character).
\<close>

fun js_index0 :: "json \<Rightarrow> js_error + json option" where
  "js_index0 JNull = Inl TypeError"
| "js_index0 (JArr []) = Inr None"
| "js_index0 (JArr (x # xs)) = Inr (Some x)"
| "js_index0 (JStr []) = Inr None"
| "js_index0 (JStr (c # cs)) = Inr (Some (JStr [c]))"
| "js_index0 (JObj kvs) = Inr (map_of kvs ''0'')"
| "js_index0 x = Inr None"

fun show_nat :: "nat \<Rightarrow> string" where
  "show_nat n = (if n < 10 then [''0123456789'' ! n]
                 else show_nat (n div 10) @ [''0123456789'' ! (n mod 10)])"

definition show_int :: "int \<Rightarrow> string" where
  "show_int i = (if i < 0 then CHR ''-'' # show_nat (nat (- i)) else show_nat (nat i))"

fun intersperse :: "string \<Rightarrow> string list \<Rightarrow> string" where
  "intersperse sep [] = []"
| "intersperse sep [x] = x"
| "intersperse sep (x # y # ys) = x @ sep @ intersperse sep (y # ys)"

text \<open>
  The string an array element contributes to \<^verbatim>\<open>join\<close>: nothing for \<^verbatim>\<open>null\<close> and
  \<^verbatim>\<open>undefined\<close>, the string conversion otherwise (a nested array joins with commas).
\<close>

fun js_join_elem :: "json \<Rightarrow> string" where
  "js_join_elem JNull = []"
| "js_join_elem (JBool b) = (if b then ''true'' else ''false'')"
| "js_join_elem (JNum n) = show_int n"
| "js_join_elem (JStr s) = s"
| "js_join_elem (JArr xs) = intersperse '','' (map js_join_elem xs)"
| "js_join_elem (JObj kvs) = ''[object Object]''"

fun js_join_elem_opt :: "json option \<Rightarrow> string" where
  "js_join_elem_opt None = []"
| "js_join_elem_opt (Some x) = js_join_elem x"

text \<open>\<^verbatim>\<open>xs.join('')\<close> on an array whose elements may be \<^verbatim>\<open>undefined\<close>.\<close>

definition js_join :: "json option list \<Rightarrow> string" where
  "js_join xs = concat (map js_join_elem_opt xs)"

text \<open>\<^verbatim>\<open>xs.map(f)\<close> where \<open>f\<close> may throw: the first throw ends the whole map.\<close>

fun js_map :: "('a \<Rightarrow> js_error + 'b) \<Rightarrow> 'a list \<Rightarrow> js_error + 'b list" where
  "js_map f [] = Inr []"
| "js_map f (x # xs) =
     (case f x of
        Inl e \<Rightarrow> Inl e
      | Inr y \<Rightarrow> (case js_map f xs of Inl e \<Rightarrow> Inl e | Inr ys \<Rightarrow> Inr (y # ys)))"

text \<open>
  \<^verbatim>\<open>encodeURIComponent(s)\<close> throws a \<^verbatim>\<open>URIError\<close> exactly when \<open>s\<close> has a lone
  surrogate: the byte 237 (\<^verbatim>\<open>ED\<close>) followed by a byte from 160 (\<^verbatim>\<open>A0\<close>) up.
\<close>

fun lone_surrogate :: "string \<Rightarrow> bool" where
  "lone_surrogate (a # b # cs) =
     ((of_char a = (237 :: nat) \<and> (160 :: nat) \<le> of_char b) \<or> lone_surrogate (b # cs))"
| "lone_surrogate cs = False"

text \<open>\<^verbatim>\<open>xs.indexOf(x)\<close>; \<open>None\<close> is the source's \<^verbatim>\<open>-1\<close>.\<close>

fun indexOf :: "'a list \<Rightarrow> 'a \<Rightarrow> nat option" where
  "indexOf [] x = None"
| "indexOf (y # ys) x =
     (if y = x then Some 0 else (case indexOf ys x of None \<Rightarrow> None | Some i \<Rightarrow> Some (Suc i)))"

section \<open>The worker's state\<close>

text \<open>
  A \<^verbatim>\<open>Map\<close> and a plain object keyed by strings are association lists in insertion
  order: \<open>AList.update\<close> overwrites in place or appends, as \<^verbatim>\<open>Map.set\<close> and property
  assignment do, and \<open>AList.delete\<close> is \<^verbatim>\<open>delete obj[k]\<close>. Every promise the worker
  stores in \<^verbatim>\<open>_inMemoryCache\<close> is already resolved, so the fast tier maps a key to
  the resolved value.
\<close>

record cache_entry =
  entry_v :: json
  entry_t :: int

record pending_entry =
  pr_text :: string
  pr_target :: string
  pr_resolvers :: "nat list"

record state =
  inMemoryCache :: "(string \<times> json) list"
  persistentCache :: "(string \<times> cache_entry) list"
  saveTimer :: bool
  MAX_PERSIST_ENTRIES :: int
  CACHE_TTL_DAYS :: int
  USE_CLOUD :: bool
  GOOGLE_API_KEY :: string
  pendingRequests :: "(string \<times> pending_entry) list"
  pendingFlushTimer :: bool

text \<open>The module's initial bindings (lines 3--9 and 85--86).\<close>

definition initial_state :: state where
  "initial_state =
     \<lparr>inMemoryCache = [], persistentCache = [], saveTimer = False,
      MAX_PERSIST_ENTRIES = 1000, CACHE_TTL_DAYS = 30, USE_CLOUD = False, GOOGLE_API_KEY = [],
      pendingRequests = [], pendingFlushTimer = False\<rparr>"

definition has :: "('k \<times> 'v) list \<Rightarrow> 'k \<Rightarrow> bool" where
  "has m k = (map_of m k \<noteq> None)"

text \<open>
  \<^verbatim>\<open>_persistentCache[key] && _persistentCache[key].v\<close>: the value of a durable entry
  that is there and truthy.
\<close>

definition persisted_value :: "(string \<times> cache_entry) list \<Rightarrow> string \<Rightarrow> json option" where
  "persisted_value pc k =
     (case map_of pc k of
        None \<Rightarrow> None
      | Some e \<Rightarrow> if js_truthy (entry_v e) then Some (entry_v e) else None)"

section \<open>Loading the durable store\<close>

text \<open>
  What \<^verbatim>\<open>browser.storage.local.get\<close> hands back. An entry of the cache blob is a
  legacy plain string, an object with the optional fields \<^verbatim>\<open>v\<close> and \<^verbatim>\<open>t\<close> (a number
  when present), or anything else (\<^verbatim>\<open>null\<close>, a number, a boolean, an array).
  The blob is listed in the order of \<^verbatim>\<open>Object.keys\<close>.
\<close>

datatype stored = StoredString string | StoredObject "json option" "int option" | StoredOther

record stored_settings =
  translationCache :: "(string \<times> stored) list"
  cacheMaxEntries :: "int option"
  cacheTTLDays :: "int option"
  useCloudTranslate :: bool
  googleApiKey :: string

text \<open>Lines 24--28 of \<^verbatim>\<open>loadSettingsAndCache\<close>: the value and time stamp of a raw entry,
  \<open>None\<close> where the loop says \<^verbatim>\<open>continue\<close>.\<close>

fun decode_entry :: "stored \<Rightarrow> int \<Rightarrow> (json \<times> int) option" where
  "decode_entry (StoredString s) now = (if s = [] then None else Some (JStr s, now))"
| "decode_entry (StoredObject vo to) now =
     (case vo of
        None \<Rightarrow> None
      | Some val \<Rightarrow>
          if js_truthy val
          then Some (val, (case to of None \<Rightarrow> now | Some ts \<Rightarrow> if ts \<noteq> 0 then ts else now))
          else None)"
| "decode_entry StoredOther now = None"

text \<open>The loop of lines 22--35 over the keys of the raw blob.\<close>

fun load_loop ::
  "(string \<times> stored) list \<Rightarrow> int \<Rightarrow> int \<Rightarrow>
   (string \<times> cache_entry) list \<Rightarrow> (string \<times> json) list \<Rightarrow>
   (string \<times> cache_entry) list \<times> (string \<times> json) list" where
  "load_loop [] now ttlDays pc mem = (pc, mem)"
| "load_loop ((k, entry) # rest) now ttlDays pc mem =
     (case decode_entry entry now of
        None \<Rightarrow> load_loop rest now ttlDays pc mem
      | Some (val, ts) \<Rightarrow>
          if ttlDays > 0 \<and> now - ts > ttlDays * 24 * 60 * 60 * 1000
          then load_loop rest now ttlDays pc mem
          else load_loop rest now ttlDays
                 (AList.update k \<lparr>entry_v = val, entry_t = ts\<rparr> pc)
                 (AList.update k val mem))"

text \<open>
  \<^verbatim>\<open>loadSettingsAndCache\<close>; \<open>res = None\<close> is a rejected \<^verbatim>\<open>storage.local.get\<close>, which
  the \<^verbatim>\<open>catch\<close> answers by emptying both tiers.
\<close>

definition loadSettingsAndCache :: "state \<Rightarrow> stored_settings option \<Rightarrow> int \<Rightarrow> state" where
  "loadSettingsAndCache st res now =
     (case res of
        None \<Rightarrow> st\<lparr>persistentCache := [], inMemoryCache := []\<rparr>
      | Some r \<Rightarrow>
          (let maxEntries = (case cacheMaxEntries r of Some n \<Rightarrow> n | None \<Rightarrow> MAX_PERSIST_ENTRIES st);
               ttlDays = (case cacheTTLDays r of Some n \<Rightarrow> n | None \<Rightarrow> CACHE_TTL_DAYS st);
               (pc, mem) = load_loop (translationCache r) now ttlDays [] []
           in st\<lparr>MAX_PERSIST_ENTRIES := maxEntries, CACHE_TTL_DAYS := ttlDays,
                 USE_CLOUD := useCloudTranslate r, GOOGLE_API_KEY := googleApiKey r,
                 persistentCache := pc, inMemoryCache := mem\<rparr>))"

section \<open>The debounced persistence write\<close>

text \<open>The loop of lines 50--59: at most \<^verbatim>\<open>MAX_PERSIST_ENTRIES\<close> truthy values of the fast
  tier, each stamped with the one \<^verbatim>\<open>now\<close> read before the loop.\<close>

fun save_loop ::
  "(string \<times> json) list \<Rightarrow> int \<Rightarrow> int \<Rightarrow> (string \<times> cache_entry) list \<Rightarrow> int \<Rightarrow>
   (string \<times> cache_entry) list" where
  "save_loop [] maxEntries now obj cnt = obj"
| "save_loop ((k, val) # rest) maxEntries now obj cnt =
     (if cnt \<ge> maxEntries then obj
      else if js_truthy val
        then save_loop rest maxEntries now
               (AList.update k \<lparr>entry_v = val, entry_t = now\<rparr> obj) (cnt + 1)
        else save_loop rest maxEntries now obj cnt)"

definition scheduleSavePersistentCache :: "state \<Rightarrow> state" where
  "scheduleSavePersistentCache st = (if saveTimer st then st else st\<lparr>saveTimer := True\<rparr>)"

text \<open>
  The timer callback of \<^verbatim>\<open>scheduleSavePersistentCache\<close> (lines 44--65). \<open>writeOk\<close> says
  whether \<^verbatim>\<open>storage.local.set\<close> resolved; the second component is the blob that reached
  the durable store, if any. A rejected write leaves the mirror as it was.
\<close>

definition saveTimerFired ::
  "state \<Rightarrow> int \<Rightarrow> bool \<Rightarrow> state \<times> (string \<times> cache_entry) list option" where
  "saveTimerFired st now writeOk =
     (let st1 = st\<lparr>saveTimer := False\<rparr>;
          obj = save_loop (inMemoryCache st1) (MAX_PERSIST_ENTRIES st1) now [] 0
      in if writeOk then (st1\<lparr>persistentCache := obj\<rparr>, Some obj) else (st1, None))"

section \<open>Purging expired entries\<close>

text \<open>Line 244: \<^verbatim>\<open>(entry && entry.t) ? entry.t : now\<close> for an entry that is there.\<close>

definition entry_ts :: "cache_entry \<Rightarrow> int \<Rightarrow> int" where
  "entry_ts entry now = (if entry_t entry \<noteq> 0 then entry_t entry else now)"

text \<open>The loop of lines 242--246 over \<^verbatim>\<open>Object.keys(_persistentCache)\<close>.\<close>

fun purge_loop ::
  "string list \<Rightarrow> (string \<times> cache_entry) list \<Rightarrow> int \<Rightarrow> int \<Rightarrow> nat \<Rightarrow>
   (string \<times> cache_entry) list \<times> nat" where
  "purge_loop [] pc now ttlDays removed = (pc, removed)"
| "purge_loop (k # ks) pc now ttlDays removed =
     (let ttlMs = ttlDays * 24 * 60 * 60 * 1000;
          ts = (case map_of pc k of None \<Rightarrow> now | Some entry \<Rightarrow> entry_ts entry now)
      in if ttlDays > 0 \<and> now - ts > ttlMs
         then purge_loop ks (AList.delete k pc) now ttlDays (removed + 1)
         else purge_loop ks pc now ttlDays removed)"

datatype storage_error = StorageRejected

text \<open>
  The \<^verbatim>\<open>purgeExpired\<close> message handler (lines 237--249): the new state, the blob
  handed to \<^verbatim>\<open>storage.local.set\<close>, and the reply, which is \<^verbatim>\<open>{ removed }\<close> once the
  write resolved and a rejection otherwise.
\<close>

definition purgeExpired ::
  "state \<Rightarrow> int \<Rightarrow> bool \<Rightarrow> state \<times> (string \<times> cache_entry) list \<times> (storage_error + nat)" where
  "purgeExpired st now writeOk =
     (let (pc, removed) =
            purge_loop (map fst (persistentCache st)) (persistentCache st) now (CACHE_TTL_DAYS st) 0
      in (st\<lparr>persistentCache := pc\<rparr>, pc, if writeOk then Inr removed else Inl StorageRejected))"

section \<open>Translate requests and the pending batch\<close>

definition schedulePendingFlush :: "state \<Rightarrow> state" where
  "schedulePendingFlush st = (if pendingFlushTimer st then st else st\<lparr>pendingFlushTimer := True\<rparr>)"

text \<open>
  \<^verbatim>\<open>queueTranslationRequest\<close> (lines 89--98). The promise's \<^verbatim>\<open>resolve\<close> function is
  a number naming the caller; the promise stays pending until a flush calls it.
\<close>

definition queueTranslationRequest :: "state \<Rightarrow> string \<Rightarrow> string \<Rightarrow> string \<Rightarrow> nat \<Rightarrow> state" where
  "queueTranslationRequest st key text target resolve =
     schedulePendingFlush
       (case map_of (pendingRequests st) key of
          Some p \<Rightarrow>
            st\<lparr>pendingRequests :=
                 AList.update key (p\<lparr>pr_resolvers := pr_resolvers p @ [resolve]\<rparr>) (pendingRequests st)\<rparr>
        | None \<Rightarrow>
            st\<lparr>pendingRequests :=
                 AList.update key \<lparr>pr_text = text, pr_target = target, pr_resolvers = [resolve]\<rparr>
                   (pendingRequests st)\<rparr>)"

text \<open>Line 71--72: the composite cache key.\<close>

definition cacheKey :: "bool \<Rightarrow> string \<Rightarrow> string \<Rightarrow> string" where
  "cacheKey useCloud text target =
     (let modePrefix = (if useCloud then ''cloud|'' else ''public|'')
      in modePrefix @ text @ ''||'' @ target)"

text \<open>What \<^verbatim>\<open>doTranslate\<close> returns: a value known now, or the pending promise of a queued
  request.\<close>

datatype reply = Resolved json | Queued

text \<open>\<^verbatim>\<open>doTranslate\<close> (lines 68--82).\<close>

definition doTranslate :: "state \<Rightarrow> string \<Rightarrow> string \<Rightarrow> nat \<Rightarrow> reply \<times> state" where
  "doTranslate st text target resolve =
     (if text = [] \<or> target = [] then (Resolved (JStr []), st)
      else
        (let key = cacheKey (USE_CLOUD st) text target
         in case map_of (inMemoryCache st) key of
              Some cached \<Rightarrow> (Resolved cached, st)
            | None \<Rightarrow>
                (case persisted_value (persistentCache st) key of
                   Some val \<Rightarrow>
                     (Resolved val, st\<lparr>inMemoryCache := AList.update key val (inMemoryCache st)\<rparr>)
                 | None \<Rightarrow> (Queued, queueTranslationRequest st key text target resolve))))"

section \<open>A change of the API key\<close>

text \<open>
  Lines 269--271 of the \<^verbatim>\<open>storage.onChanged\<close> listener, for a change of
  \<^verbatim>\<open>googleApiKey\<close> alone in the local area: \<^verbatim>\<open>newValue || ''\<close>, where \<open>None\<close> is a key
  that was removed.
\<close>

definition googleApiKeyChanged :: "state \<Rightarrow> string option \<Rightarrow> state" where
  "googleApiKeyChanged st newValue =
     st\<lparr>GOOGLE_API_KEY := (case newValue of None \<Rightarrow> [] | Some s \<Rightarrow> s)\<rparr>"

section \<open>The provider adapter\<close>

text \<open>
  The outbound call of a batch: the cloud endpoint with the API key, one \<^verbatim>\<open>q\<close> per text
  and the target, or the public endpoint with the target and one \<^verbatim>\<open>q\<close> per text. Of
  the URL only this content is kept, and whether building it throws. \<^verbatim>\<open>fetch\<close> rejects,
  or resolves to a response with its \<^verbatim>\<open>ok\<close> flag and the body \<^verbatim>\<open>resp.json()\<close> parses
  (\<open>None\<close> when it rejects).
\<close>

datatype request = CloudRequest string "string list" string | PublicRequest string "string list"

datatype fetch_outcome = FetchRejects | Response bool "json option"

fun request_texts :: "request \<Rightarrow> string list" where
  "request_texts (CloudRequest apiKey qs target) = qs"
| "request_texts (PublicRequest target qs) = qs"

fun request_target :: "request \<Rightarrow> string" where
  "request_target (CloudRequest apiKey qs target) = target"
| "request_target (PublicRequest target qs) = target"

text \<open>Line 161: \<^verbatim>\<open>t => t.translatedText || ''\<close>.\<close>

fun translatedText_or_empty :: "json \<Rightarrow> js_error + json" where
  "translatedText_or_empty JNull = Inl TypeError"
| "translatedText_or_empty t =
     (case js_prop t ''translatedText'' of
        None \<Rightarrow> Inr (JStr [])
      | Some x \<Rightarrow> if js_truthy x then Inr x else Inr (JStr []))"

text \<open>Lines 160--162: what the cloud branch assigns to \<^verbatim>\<open>results\<close> (the empty list where it
  assigns nothing), or the error it throws.\<close>

definition cloud_results :: "json \<Rightarrow> js_error + json list" where
  "cloud_results data =
     (if \<not> js_truthy data then Inr []
      else case js_prop data ''data'' of
             None \<Rightarrow> Inr []
           | Some d \<Rightarrow>
               if \<not> js_truthy d then Inr []
               else (case js_prop d ''translations'' of
                       Some (JArr ts) \<Rightarrow> js_map translatedText_or_empty ts
                     | _ \<Rightarrow> Inr []))"

text \<open>\<^verbatim>\<open>ps.map(p => p[0]).join('')\<close> on an array \<open>ps\<close>.\<close>

definition join_firsts :: "json list \<Rightarrow> js_error + json" where
  "join_firsts ps =
     (case js_map js_index0 ps of Inl e \<Rightarrow> Inl e | Inr xs \<Rightarrow> Inr (JStr (js_join xs)))"

text \<open>Line 176: \<^verbatim>\<open>segArr => segArr.map(p => p[0]).join('')\<close>; a \<open>segArr\<close> that is not an
  array has no \<^verbatim>\<open>map\<close> to call.\<close>

fun segment_text :: "json \<Rightarrow> js_error + json" where
  "segment_text (JArr ps) = join_firsts ps"
| "segment_text x = Inl TypeError"

fun first :: "'a list \<Rightarrow> 'a option" where
  "first [] = None"
| "first (x # xs) = Some x"

text \<open>Lines 173--181: what the public branch assigns to \<^verbatim>\<open>results\<close> for \<open>n\<close> texts sent.\<close>

definition public_results :: "json \<Rightarrow> nat \<Rightarrow> js_error + json list" where
  "public_results data n =
     (case data of
        JArr ds \<Rightarrow>
          (case first ds of
             Some (JArr d0) \<Rightarrow>
               if isArray (first d0) \<and> length d0 = n then js_map segment_text d0
               else (case join_firsts d0 of Inl e \<Rightarrow> Inl e | Inr joined \<Rightarrow> Inr [joined])
           | _ \<Rightarrow> Inr [])
      | _ \<Rightarrow> Inr [])"

text \<open>The \<^verbatim>\<open>catch\<close> of line 184 leaves \<^verbatim>\<open>results\<close> empty.\<close>

fun caught :: "js_error + json list \<Rightarrow> json list" where
  "caught (Inl e) = []"
| "caught (Inr rs) = rs"

definition provider_request :: "state \<Rightarrow> string \<Rightarrow> string list \<Rightarrow> request" where
  "provider_request st target toTranslate =
     (if USE_CLOUD st \<and> GOOGLE_API_KEY st \<noteq> []
      then CloudRequest (GOOGLE_API_KEY st) toTranslate target
      else PublicRequest target toTranslate)"

text \<open>
  Whether the URL gets built. Both branches build it inside the \<^verbatim>\<open>try\<close>. The cloud branch
  passes the API key to \<^verbatim>\<open>encodeURIComponent\<close> (line 156) and the texts and the target
  to \<^verbatim>\<open>URLSearchParams\<close>, which does not throw (it sends a replacement character for a
  lone surrogate). The public branch passes the target (line 166) and every text
  (line 167) to \<^verbatim>\<open>encodeURIComponent\<close>.
\<close>

definition url_builds :: "state \<Rightarrow> string \<Rightarrow> string list \<Rightarrow> bool" where
  "url_builds st target toTranslate =
     (if USE_CLOUD st \<and> GOOGLE_API_KEY st \<noteq> []
      then \<not> lone_surrogate (GOOGLE_API_KEY st)
      else \<not> lone_surrogate target \<and> list_all (\<lambda>t. \<not> lone_surrogate t) toTranslate)"

text \<open>
  Lines 149--186: the \<^verbatim>\<open>results\<close> the \<^verbatim>\<open>try\<close> block leaves. Where building the URL
  throws, \<^verbatim>\<open>fetch\<close> is not called and the \<^verbatim>\<open>catch\<close> leaves \<^verbatim>\<open>results\<close> empty.
\<close>

definition provider_results ::
  "state \<Rightarrow> (request \<Rightarrow> fetch_outcome) \<Rightarrow> string \<Rightarrow> string list \<Rightarrow> json list" where
  "provider_results st fetch target toTranslate =
     (if \<not> url_builds st target toTranslate then []
      else case fetch (provider_request st target toTranslate) of
             FetchRejects \<Rightarrow> []
           | Response ok body \<Rightarrow>
               if \<not> ok then []
               else (case body of
                       None \<Rightarrow> []
                     | Some data \<Rightarrow>
                         if USE_CLOUD st \<and> GOOGLE_API_KEY st \<noteq> []
                         then caught (cloud_results data)
                         else caught (public_results data (length toTranslate))))"

section \<open>Flushing the pending batch\<close>

text \<open>
  The worker runs on one thread, and a handler gives way to another only where it awaits.
  \<^verbatim>\<open>doTranslate\<close>, \<^verbatim>\<open>queueTranslationRequest\<close> and the grouping and clearing at the
  start of a flush have no await. The model takes every handler and timer callback as
  one step, with the provider's answer and the outcome of a storage write as inputs of
  the step: what other handlers do while a flush or a write is suspended is not part of
  it.
\<close>

record item =
  it_key :: string
  it_text :: string
  it_resolvers :: "nat list"

text \<open>Lines 111--116: \<^verbatim>\<open>byTarget\<close>, a \<^verbatim>\<open>Map\<close> from target to the items queued for it.\<close>

fun group_by_target ::
  "(string \<times> pending_entry) list \<Rightarrow> (string \<times> item list) list \<Rightarrow> (string \<times> item list) list" where
  "group_by_target [] byTarget = byTarget"
| "group_by_target ((key, entry) # rest) byTarget =
     (let t = (if pr_target entry \<noteq> [] then pr_target entry else ''en'');
          items = (case map_of byTarget t of None \<Rightarrow> [] | Some its \<Rightarrow> its)
      in group_by_target rest
           (AList.update t
              (items @ [\<lparr>it_key = key, it_text = pr_text entry, it_resolvers = pr_resolvers entry\<rparr>])
              byTarget))"

text \<open>Lines 124--131: the first item of every key, with the keys \<open>seen\<close> so far.\<close>

fun dedupe :: "item list \<Rightarrow> string list \<Rightarrow> item list" where
  "dedupe [] seen = []"
| "dedupe (it # items) seen =
     (if it_key it \<notin> set seen then it # dedupe items (it_key it # seen) else dedupe items seen)"

text \<open>
  Lines 134--145: \<^verbatim>\<open>toTranslate\<close>, \<^verbatim>\<open>translateIndex\<close> and the fast tier after the
  second look at both tiers.
\<close>

fun recheck ::
  "item list \<Rightarrow> (string \<times> json) list \<Rightarrow> (string \<times> cache_entry) list \<Rightarrow>
   string list \<times> string list \<times> (string \<times> json) list" where
  "recheck [] mem pc = ([], [], mem)"
| "recheck (it # rest) mem pc =
     (if has mem (it_key it) then recheck rest mem pc
      else (case persisted_value pc (it_key it) of
              Some val \<Rightarrow> recheck rest (AList.update (it_key it) val mem) pc
            | None \<Rightarrow>
                (case recheck rest mem pc of
                   (toTranslate, translateIndex, mem') \<Rightarrow>
                     (it_text it # toTranslate, it_key it # translateIndex, mem'))))"

text \<open>Lines 206--212: the calls \<^verbatim>\<open>r(translated)\<close> made for one key, in order.\<close>

definition resolve_key :: "item list \<Rightarrow> string \<Rightarrow> json \<Rightarrow> (nat \<times> json) list" where
  "resolve_key items key translated =
     concat (map (\<lambda>it. if it_key it = key then map (\<lambda>r. (r, translated)) (it_resolvers it) else [])
                 items)"

text \<open>Lines 193--199: the value a key resolves to.\<close>

definition translated_for ::
  "string \<Rightarrow> string list \<Rightarrow> json list \<Rightarrow> (string \<times> json) list \<Rightarrow> json" where
  "translated_for key translateIndex results mem =
     (let translated =
            (case indexOf translateIndex key of
               None \<Rightarrow> JStr []
             | Some idx \<Rightarrow> if idx < length results then results ! idx else JStr [])
      in if \<not> js_truthy translated
         then (case map_of mem key of None \<Rightarrow> translated | Some cached \<Rightarrow> cached)
         else translated)"

text \<open>
  Lines 191--213: the loop over \<^verbatim>\<open>unique\<close>. It returns the resolver calls it made and
  both tiers.
\<close>

fun assign_loop ::
  "item list \<Rightarrow> item list \<Rightarrow> string list \<Rightarrow> json list \<Rightarrow> int \<Rightarrow>
   (string \<times> json) list \<Rightarrow> (string \<times> cache_entry) list \<Rightarrow>
   (nat \<times> json) list \<times> (string \<times> json) list \<times> (string \<times> cache_entry) list" where
  "assign_loop [] items translateIndex results now mem pc = ([], mem, pc)"
| "assign_loop (u # us) items translateIndex results now mem pc =
     (let key = it_key u;
          translated = translated_for key translateIndex results mem;
          mem1 = (if js_truthy translated then AList.update key translated mem else mem);
          pc1 = (if js_truthy translated
                 then AList.update key \<lparr>entry_v = translated, entry_t = now\<rparr> pc else pc)
      in case assign_loop us items translateIndex results now mem1 pc1 of
           (invoked, mem2, pc2) \<Rightarrow> (resolve_key items key translated @ invoked, mem2, pc2))"

text \<open>
  The body of the loop over \<^verbatim>\<open>byTarget\<close> (lines 122--217) for one target: the
  outbound calls made (none or one), the resolver calls, and the new state. \<^verbatim>\<open>fetch\<close>
  is called when there is a text to translate and the URL gets built.
\<close>

definition flush_group ::
  "(request \<Rightarrow> fetch_outcome) \<Rightarrow> int \<Rightarrow> string \<Rightarrow> item list \<Rightarrow> state \<Rightarrow>
   request list \<times> (nat \<times> json) list \<times> state" where
  "flush_group fetch now target items st =
     (let unique = dedupe items []
      in case recheck unique (inMemoryCache st) (persistentCache st) of
           (toTranslate, translateIndex, mem1) \<Rightarrow>
             (let calls = (if toTranslate \<noteq> [] \<and> url_builds st target toTranslate
                           then [provider_request st target toTranslate] else []);
                  results = (if toTranslate \<noteq> [] then provider_results st fetch target toTranslate
                             else [])
              in case assign_loop unique items translateIndex results now mem1 (persistentCache st) of
                   (invoked, mem2, pc2) \<Rightarrow>
                     (calls, invoked,
                      scheduleSavePersistentCache
                        (st\<lparr>inMemoryCache := mem2, persistentCache := pc2\<rparr>))))"

fun flush_groups ::
  "(request \<Rightarrow> fetch_outcome) \<Rightarrow> int \<Rightarrow> (string \<times> item list) list \<Rightarrow> state \<Rightarrow>
   request list \<times> (nat \<times> json) list \<times> state" where
  "flush_groups fetch now [] st = ([], [], st)"
| "flush_groups fetch now ((target, items) # groups) st =
     (case flush_group fetch now target items st of
        (calls, invoked, st1) \<Rightarrow>
          (case flush_groups fetch now groups st1 of
             (calls', invoked', st2) \<Rightarrow> (calls @ calls', invoked @ invoked', st2)))"

text \<open>
  \<^verbatim>\<open>flushPendingRequests\<close> (lines 108--219), with the provider as the function
  \<open>fetch\<close> and \<open>now\<close> the clock read at line 118.
\<close>

definition flushPendingRequests ::
  "state \<Rightarrow> (request \<Rightarrow> fetch_outcome) \<Rightarrow> int \<Rightarrow> request list \<times> (nat \<times> json) list \<times> state" where
  "flushPendingRequests st fetch now =
     (if pendingRequests st = [] then ([], [], st)
      else flush_groups fetch now (group_by_target (pendingRequests st) [])
             (st\<lparr>pendingRequests := []\<rparr>))"

text \<open>The timer callback of \<^verbatim>\<open>schedulePendingFlush\<close> (lines 102--105).\<close>

definition pendingFlushTimerFired ::
  "state \<Rightarrow> (request \<Rightarrow> fetch_outcome) \<Rightarrow> int \<Rightarrow> request list \<times> (nat \<times> json) list \<times> state" where
  "pendingFlushTimerFired st fetch now =
     flushPendingRequests (st\<lparr>pendingFlushTimer := False\<rparr>) fetch now"

section \<open>The expiry test of the specification\<close>

text \<open>The expiry test in the words of the specification: \<open>ttlDays > 0\<close> and
  \<open>now - timestamp > ttlDays * 86400000\<close>.\<close>

definition isExpired :: "int \<Rightarrow> int \<Rightarrow> int \<Rightarrow> bool" where
  "isExpired now ts ttlDays = (ttlDays > 0 \<and> now - ts > ttlDays * 86400000)"

text \<open>Whether the durable entry under a key, if any, passes that test.\<close>

definition expired_at :: "(string \<times> cache_entry) list \<Rightarrow> int \<Rightarrow> int \<Rightarrow> string \<Rightarrow> bool" where
  "expired_at pc now ttlDays k =
     (case map_of pc k of None \<Rightarrow> False | Some e \<Rightarrow> isExpired now (entry_ts e now) ttlDays)"

section \<open>Callers and groups of a flush\<close>

text \<open>The resolver callbacks registered against the pending items, in order.\<close>

definition registered :: "(string \<times> pending_entry) list \<Rightarrow> nat list" where
  "registered pend = concat (map (\<lambda>(k, p). pr_resolvers p) pend)"

text \<open>The resolver callbacks carried by a list of items, and all items of \<^verbatim>\<open>byTarget\<close>.\<close>

definition resolvers_of :: "item list \<Rightarrow> nat list" where
  "resolvers_of items = concat (map it_resolvers items)"

definition all_items :: "(string \<times> item list) list \<Rightarrow> item list" where
  "all_items byTarget = concat (map snd byTarget)"

section \<open>A debounce window of requests\<close>

text \<open>
  The requests of one debounce window, each a text, a target and the caller's callback,
  handled one after the other by \<open>doTranslate\<close>: the replies the callers get at once, and
  the state when the timer fires.
\<close>

fun translate_requests :: "state \<Rightarrow> (string \<times> string \<times> nat) list \<Rightarrow> reply list \<times> state" where
  "translate_requests st [] = ([], st)"
| "translate_requests st ((tx, target, r) # reqs) =
     (case doTranslate st tx target r of
        (rep, st1) \<Rightarrow>
          (case translate_requests st1 reqs of (reps, st2) \<Rightarrow> (rep # reps, st2)))"

text \<open>The callbacks of the requests of a window that ask for a given text and target.\<close>

definition callers_of :: "string \<Rightarrow> string \<Rightarrow> (string \<times> string \<times> nat) list \<Rightarrow> nat list" where
  "callers_of tx target reqs =
     map (\<lambda>(t, g, r). r) (filter (\<lambda>(t, g, r). t = tx \<and> g = target) reqs)"

text \<open>How many times a text is sent to the provider for a target by a list of outbound
  calls.\<close>

definition slots :: "string \<Rightarrow> string \<Rightarrow> request list \<Rightarrow> nat" where
  "slots tx target calls =
     sum_list (map (\<lambda>req. if request_target req = target then count_list (request_texts req) tx else 0)
                   calls)"

text \<open>What holds of the state while the requests \<open>seen\<close> of a window arrive, for a key
  \<open>cacheKey m tx target\<close> that neither tier holds.\<close>

definition window_inv ::
  "bool \<Rightarrow> string \<Rightarrow> string \<Rightarrow> (string \<times> string \<times> nat) list \<Rightarrow> state \<Rightarrow> bool" where
  "window_inv m tx target seen s =
     (USE_CLOUD s = m
      \<and> map_of (inMemoryCache s) (cacheKey m tx target) = None
      \<and> persisted_value (persistentCache s) (cacheKey m tx target) = None
      \<and> distinct (map fst (pendingRequests s))
      \<and> (\<forall>(k, p) \<in> set (pendingRequests s).
            k = cacheKey m (pr_text p) (pr_target p) \<and> pr_target p \<noteq> [])
      \<and> map_of (pendingRequests s) (cacheKey m tx target)
          = (if callers_of tx target seen = [] then None
             else Some \<lparr>pr_text = tx, pr_target = target, pr_resolvers = callers_of tx target seen\<rparr>)
      \<and> mset (registered (pendingRequests s)) \<subseteq># mset (map (\<lambda>(t, g, r). r) seen))"

section \<open>Unfolding the model on concrete inputs\<close>

lemmas run_defs =
  initial_state_def doTranslate_def cacheKey_def persisted_value_def has_def
  queueTranslationRequest_def schedulePendingFlush_def flushPendingRequests_def
  pendingFlushTimerFired_def flush_group_def translated_for_def resolve_key_def
  provider_results_def provider_request_def url_builds_def cloud_results_def
  public_results_def
  join_firsts_def js_join_def scheduleSavePersistentCache_def saveTimerFired_def
  purgeExpired_def entry_ts_def loadSettingsAndCache_def Let_def

section \<open>Expiry on load and on purge\<close>

lemma expired_at_delete:
  "expired_at (AList.delete k0 pc) now ttl k = (k \<noteq> k0 \<and> expired_at pc now ttl k)"
  by (simp add: expired_at_def delete_conv')

lemma purge_loop_expired_step:
  "expired_at pc now ttl k0 \<Longrightarrow>
   purge_loop (k0 # ks) pc now ttl n = purge_loop ks (AList.delete k0 pc) now ttl (n + 1)"
  by (auto simp: expired_at_def isExpired_def Let_def split: option.splits)

lemma purge_loop_kept_step:
  "\<not> expired_at pc now ttl k0 \<Longrightarrow> purge_loop (k0 # ks) pc now ttl n = purge_loop ks pc now ttl n"
  by (auto simp: expired_at_def isExpired_def Let_def split: option.splits)

lemma purge_loop_map_of:
  "map_of (fst (purge_loop ks pc now ttl n)) k =
     (if k \<in> set ks \<and> expired_at pc now ttl k then None else map_of pc k)"
proof (induction ks arbitrary: pc n)
  case Nil
  then show ?case by simp
next
  case (Cons k0 ks)
  show ?case
  proof (cases "expired_at pc now ttl k0")
    case True
    show ?thesis
      unfolding purge_loop_expired_step [OF True] Cons.IH using True
      by (auto simp: expired_at_delete delete_conv')
  next
    case False
    show ?thesis
      unfolding purge_loop_kept_step [OF False] Cons.IH using False by auto
  qed
qed

lemma purge_loop_nothing:
  "\<forall>k\<in>set ks. \<not> expired_at pc now ttl k \<Longrightarrow> purge_loop ks pc now ttl n = (pc, n)"
proof (induction ks arbitrary: n)
  case Nil
  then show ?case by simp
next
  case (Cons k0 ks)
  then have "\<not> expired_at pc now ttl k0" by simp
  from purge_loop_kept_step [OF this] Cons show ?case by simp
qed

lemma purge_loop_leaves_none:
  "\<not> expired_at (fst (purge_loop (map fst pc) pc now ttl n)) now ttl k"
proof
  let ?pc' = "fst (purge_loop (map fst pc) pc now ttl n)"
  assume a: "expired_at ?pc' now ttl k"
  then have "map_of ?pc' k \<noteq> None"
    by (auto simp: expired_at_def split: option.splits)
  then have nk: "\<not> (k \<in> set (map fst pc) \<and> expired_at pc now ttl k)"
    and same: "map_of ?pc' k = map_of pc k"
    by (auto simp: purge_loop_map_of split: if_splits)
  from a same have e: "expired_at pc now ttl k" by (simp add: expired_at_def)
  then have "map_of pc k \<noteq> None" by (auto simp: expired_at_def split: option.splits)
  then have "k \<in> set (map fst pc)" by (simp add: map_of_eq_None_iff)
  with nk e show False by simp
qed

lemma load_loop_tiers:
  assumes "distinct (map fst raw)"
  shows "map_of (fst (load_loop raw now ttl pc mem)) k =
           (case map_of raw k of
              None \<Rightarrow> map_of pc k
            | Some entry \<Rightarrow>
                (case decode_entry entry now of
                   None \<Rightarrow> map_of pc k
                 | Some (val, ts) \<Rightarrow>
                     if isExpired now ts ttl then map_of pc k
                     else Some \<lparr>entry_v = val, entry_t = ts\<rparr>))
       \<and> map_of (snd (load_loop raw now ttl pc mem)) k =
           (case map_of raw k of
              None \<Rightarrow> map_of mem k
            | Some entry \<Rightarrow>
                (case decode_entry entry now of
                   None \<Rightarrow> map_of mem k
                 | Some (val, ts) \<Rightarrow> if isExpired now ts ttl then map_of mem k else Some val))"
  using assms
proof (induction raw arbitrary: pc mem)
  case Nil
  then show ?case by simp
next
  case (Cons p raw)
  obtain k0 entry where p: "p = (k0, entry)" by (cases p)
  from Cons.prems p have d: "distinct (map fst raw)" and notin: "map_of raw k0 = None"
    by (auto simp: map_of_eq_None_iff)
  note IH = Cons.IH [OF d]
  show ?case
  proof (cases "k0 = k")
    case True
    from notin True have nk: "map_of raw k = None" by simp
    show ?thesis
      unfolding p True
      by (simp add: IH nk isExpired_def update_conv' split: option.splits prod.splits)
  next
    case False
    then show ?thesis
      unfolding p
      by (simp add: IH isExpired_def update_conv' split: option.splits prod.splits)
  qed
qed

section \<open>The persistence write\<close>

lemma set_update_subset: "x \<in> set (AList.update k v al) \<Longrightarrow> x = (k, v) \<or> x \<in> set al"
  by (induction al) (auto split: if_splits)

lemma length_update_le: "length (AList.update k v al) \<le> Suc (length al)"
  by (induction al) auto

lemma save_loop_length:
  "int (length obj) \<le> cnt \<Longrightarrow> int (length (save_loop mem maxEntries now obj cnt)) \<le> max cnt maxEntries"
proof (induction mem arbitrary: obj cnt)
  case Nil
  then show ?case by simp
next
  case (Cons p mem)
  obtain k val where p: "p = (k, val)" by (cases p)
  show ?case
  proof (cases "cnt \<ge> maxEntries")
    case True
    with Cons.prems show ?thesis by (simp add: p)
  next
    case below: False
    show ?thesis
    proof (cases "js_truthy val")
      case True
      let ?obj = "AList.update k \<lparr>entry_v = val, entry_t = now\<rparr> obj"
      have "int (length ?obj) \<le> cnt + 1"
        using length_update_le [of k "\<lparr>entry_v = val, entry_t = now\<rparr>" obj] Cons.prems by linarith
      from Cons.IH [OF this] below True show ?thesis by (simp add: p)
    next
      case False
      with Cons.IH [OF Cons.prems] below show ?thesis by (simp add: p)
    qed
  qed
qed

lemma save_loop_distinct:
  "distinct (map fst obj) \<Longrightarrow> distinct (map fst (save_loop mem maxEntries now obj cnt))"
proof (induction mem arbitrary: obj cnt)
  case Nil
  then show ?case by simp
next
  case (Cons p mem)
  obtain k val where p: "p = (k, val)" by (cases p)
  from Cons show ?case by (simp add: p distinct_update)
qed

lemma save_loop_entries:
  "(k, e) \<in> set (save_loop mem maxEntries now obj cnt) \<Longrightarrow>
   (k, e) \<in> set obj \<or> (entry_t e = now \<and> js_truthy (entry_v e) \<and> (k, entry_v e) \<in> set mem)"
proof (induction mem arbitrary: obj cnt)
  case Nil
  then show ?case by simp
next
  case (Cons p mem)
  obtain k0 val where p: "p = (k0, val)" by (cases p)
  show ?case
  proof (cases "cnt < maxEntries \<and> js_truthy val")
    case True
    with Cons.prems
    have "(k, e) \<in> set (save_loop mem maxEntries now
             (AList.update k0 \<lparr>entry_v = val, entry_t = now\<rparr> obj) (cnt + 1))"
      by (simp add: p)
    from Cons.IH [OF this] True show ?thesis
      by (auto simp: p dest: set_update_subset)
  next
    case False
    with Cons.prems have "(k, e) \<in> set obj \<or> (k, e) \<in> set (save_loop mem maxEntries now obj cnt)"
      by (auto simp: p split: if_splits)
    with Cons.IH show ?thesis by (auto simp: p)
  qed
qed

lemma saveTimerFired_written:
  "saveTimerFired st now True =
     (st\<lparr>saveTimer := False,
         persistentCache := save_loop (inMemoryCache st) (MAX_PERSIST_ENTRIES st) now [] 0\<rparr>,
      Some (save_loop (inMemoryCache st) (MAX_PERSIST_ENTRIES st) now [] 0))"
  by (simp add: saveTimerFired_def Let_def)

section \<open>Every registered callback is called once\<close>

lemma scheduleSavePersistentCache_fields [simp]:
  "inMemoryCache (scheduleSavePersistentCache st) = inMemoryCache st"
  "persistentCache (scheduleSavePersistentCache st) = persistentCache st"
  "pendingRequests (scheduleSavePersistentCache st) = pendingRequests st"
  "pendingFlushTimer (scheduleSavePersistentCache st) = pendingFlushTimer st"
  "USE_CLOUD (scheduleSavePersistentCache st) = USE_CLOUD st"
  "GOOGLE_API_KEY (scheduleSavePersistentCache st) = GOOGLE_API_KEY st"
  "MAX_PERSIST_ENTRIES (scheduleSavePersistentCache st) = MAX_PERSIST_ENTRIES st"
  "CACHE_TTL_DAYS (scheduleSavePersistentCache st) = CACHE_TTL_DAYS st"
  "saveTimer (scheduleSavePersistentCache st) = True"
  by (simp_all add: scheduleSavePersistentCache_def)

lemma resolvers_of_mset:
  "mset (resolvers_of items) = (\<Sum>it\<in>#mset items. mset (it_resolvers it))"
  by (induction items) (simp_all add: resolvers_of_def)

lemma resolvers_of_cong: "mset xs = mset ys \<Longrightarrow> mset (resolvers_of xs) = mset (resolvers_of ys)"
  by (simp add: resolvers_of_mset)

lemma resolvers_of_append [simp]: "resolvers_of (xs @ ys) = resolvers_of xs @ resolvers_of ys"
  by (simp add: resolvers_of_def)

lemma all_items_update:
  "mset (all_items (AList.update t ((case map_of bt t of None \<Rightarrow> [] | Some its \<Rightarrow> its) @ [x]) bt))
     = mset (all_items bt) + {#x#}"
  by (induction bt) (auto simp: all_items_def)

lemma group_by_target_items:
  "mset (all_items (group_by_target pend bt))
     = mset (all_items bt)
       + mset (map (\<lambda>(k, p). \<lparr>it_key = k, it_text = pr_text p, it_resolvers = pr_resolvers p\<rparr>) pend)"
proof (induction pend arbitrary: bt)
  case Nil
  then show ?case by simp
next
  case (Cons a pend)
  obtain key entry where a: "a = (key, entry)" by (cases a)
  show ?case
    unfolding a by (simp add: Cons.IH all_items_update Let_def)
qed

lemma group_by_target_resolvers:
  "mset (resolvers_of (all_items (group_by_target pend []))) = mset (registered pend)"
proof -
  let ?mk = "\<lambda>(k, p). \<lparr>it_key = k, it_text = pr_text p, it_resolvers = pr_resolvers p\<rparr>"
  have "mset (all_items (group_by_target pend [])) = mset (map ?mk pend)"
    using group_by_target_items [of pend "[]"] by (simp add: all_items_def)
  from resolvers_of_cong [OF this]
  have "mset (resolvers_of (all_items (group_by_target pend []))) = mset (resolvers_of (map ?mk pend))" .
  also have "resolvers_of (map ?mk pend) = registered pend"
    by (induction pend) (auto simp: resolvers_of_def registered_def)
  finally show ?thesis .
qed

lemma dedupe_keys:
  "distinct (map it_key (dedupe items seen))
   \<and> set (map it_key (dedupe items seen)) = it_key ` set items - set seen"
  by (induction items arbitrary: seen) auto

lemma resolve_key_callers:
  "map fst (resolve_key items key translated)
     = resolvers_of (filter (\<lambda>it. it_key it = key) items)"
  by (induction items) (auto simp: resolve_key_def resolvers_of_def comp_def)

lemma resolve_key_values: "(r, val) \<in> set (resolve_key items key translated) \<Longrightarrow> val = translated"
  by (auto simp: resolve_key_def split: if_splits)

lemma assign_loop_step:
  assumes "assign_loop us items ti results now
           (if js_truthy (translated_for (it_key u) ti results mem)
            then AList.update (it_key u) (translated_for (it_key u) ti results mem) mem else mem)
           (if js_truthy (translated_for (it_key u) ti results mem)
            then AList.update (it_key u)
                   \<lparr>entry_v = translated_for (it_key u) ti results mem, entry_t = now\<rparr> pc
            else pc)
         = (invoked, mem2, pc2)"
  shows "assign_loop (u # us) items ti results now mem pc
     = (resolve_key items (it_key u) (translated_for (it_key u) ti results mem) @ invoked, mem2, pc2)"
  using assms by (cases "js_truthy (translated_for (it_key u) ti results mem)") (simp_all add: Let_def)

lemma assign_loop_callers:
  "mset (map fst (fst (assign_loop us items ti results now mem pc)))
     = (\<Sum>u\<in>#mset us. mset (resolvers_of (filter (\<lambda>it. it_key it = it_key u) items)))"
proof (induction us arbitrary: mem pc)
  case Nil
  then show ?case by simp
next
  case (Cons u us)
  let ?tr = "translated_for (it_key u) ti results mem"
  let ?mem1 = "if js_truthy ?tr then AList.update (it_key u) ?tr mem else mem"
  let ?pc1 = "if js_truthy ?tr
            then AList.update (it_key u) \<lparr>entry_v = ?tr, entry_t = now\<rparr> pc else pc"
  obtain invoked mem2 pc2
    where rest: "assign_loop us items ti results now ?mem1 ?pc1 = (invoked, mem2, pc2)"
    by (cases "assign_loop us items ti results now ?mem1 ?pc1")
  note step = assign_loop_step [OF rest]
  from Cons.IH [of ?mem1 ?pc1] rest
  have "mset (map fst invoked)
     = (\<Sum>u\<in>#mset us. mset (resolvers_of (filter (\<lambda>it. it_key it = it_key u) items)))"
    by simp
  then show ?case
    unfolding step by (simp add: resolve_key_callers)
qed

lemma resolvers_by_key:
  "distinct (map it_key us) \<Longrightarrow>
   (\<Sum>u\<in>#mset us. mset (resolvers_of (filter (\<lambda>it. it_key it = it_key u) items)))
     = mset (resolvers_of (filter (\<lambda>it. it_key it \<in> it_key ` set us) items))"
proof (induction us)
  case Nil
  then show ?case by (simp add: resolvers_of_def)
next
  case (Cons u us)
  then have notin: "it_key u \<notin> it_key ` set us" and d: "distinct (map it_key us)" by auto
  have split: "mset (resolvers_of (filter (\<lambda>it. it_key it \<in> it_key ` set (u # us)) items))
      = mset (resolvers_of (filter (\<lambda>it. it_key it = it_key u) items))
        + mset (resolvers_of (filter (\<lambda>it. it_key it \<in> it_key ` set us) items))"
    using notin by (induction items) (auto simp: resolvers_of_def)
  show ?case
    using Cons.IH [OF d] split by simp
qed

lemma flush_group_unfold:
  assumes "recheck (dedupe items []) (inMemoryCache st) (persistentCache st) = (tt, ti, mem1)"
    and "assign_loop (dedupe items []) items ti
           (if tt \<noteq> [] then provider_results st fetch target tt else []) now mem1
           (persistentCache st) = (invoked, mem2, pc2)"
  shows "flush_group fetch now target items st
     = ((if tt \<noteq> [] \<and> url_builds st target tt then [provider_request st target tt] else []), invoked,
        scheduleSavePersistentCache (st\<lparr>inMemoryCache := mem2, persistentCache := pc2\<rparr>))"
  using assms by (simp add: flush_group_def Let_def)

lemma flush_group_callers:
  "mset (map fst (fst (snd (flush_group fetch now target items st)))) = mset (resolvers_of items)"
proof -
  let ?us = "dedupe items []"
  have keys: "distinct (map it_key ?us)" "it_key ` set ?us = it_key ` set items"
    using dedupe_keys [of items "[]"] by auto
  have "filter (\<lambda>it. it_key it \<in> it_key ` set ?us) items = items"
    unfolding keys by simp
  with resolvers_by_key [OF keys(1), of items]
  have all: "(\<Sum>u\<in>#mset ?us. mset (resolvers_of (filter (\<lambda>it. it_key it = it_key u) items)))
      = mset (resolvers_of items)" by simp
  obtain tt ti mem1 where r: "recheck ?us (inMemoryCache st) (persistentCache st) = (tt, ti, mem1)"
    by (cases "recheck ?us (inMemoryCache st) (persistentCache st)")
  let ?rs = "if tt \<noteq> [] then provider_results st fetch target tt else []"
  obtain invoked mem2 pc2
    where a: "assign_loop ?us items ti ?rs now mem1 (persistentCache st) = (invoked, mem2, pc2)"
    by (cases "assign_loop ?us items ti ?rs now mem1 (persistentCache st)")
  from assign_loop_callers [of ?us items ti ?rs now mem1 "persistentCache st"] a all
  have "mset (map fst invoked) = mset (resolvers_of items)" by simp
  then show ?thesis
    unfolding flush_group_unfold [OF r a] by simp
qed

lemma flush_groups_step:
  assumes "flush_group fetch now target items st = (calls, invoked, st1)"
    and "flush_groups fetch now groups st1 = (calls', invoked', st2)"
  shows "flush_groups fetch now ((target, items) # groups) st
     = (calls @ calls', invoked @ invoked', st2)"
  using assms by simp

lemma flush_groups_callers:
  "mset (map fst (fst (snd (flush_groups fetch now groups st)))) = mset (resolvers_of (all_items groups))"
proof (induction groups arbitrary: st)
  case Nil
  then show ?case by (simp add: all_items_def resolvers_of_def)
next
  case (Cons g groups)
  obtain target items where g: "g = (target, items)" by (cases g)
  obtain calls invoked st1 where f: "flush_group fetch now target items st = (calls, invoked, st1)"
    by (cases "flush_group fetch now target items st")
  obtain calls' invoked' st2 where r: "flush_groups fetch now groups st1 = (calls', invoked', st2)"
    by (cases "flush_groups fetch now groups st1")
  from flush_group_callers [of fetch now target items st] f
  have one: "mset (map fst invoked) = mset (resolvers_of items)" by simp
  from Cons.IH [of st1] r
  have more: "mset (map fst invoked') = mset (resolvers_of (all_items groups))" by simp
  show ?case
    unfolding g flush_groups_step [OF f r] using one more
    by (simp add: all_items_def)
qed

lemma flush_group_pending:
  "pendingRequests (snd (snd (flush_group fetch now target items st))) = pendingRequests st"
  by (simp add: flush_group_def scheduleSavePersistentCache_def Let_def split: prod.splits)

lemma flush_groups_pending:
  "pendingRequests (snd (snd (flush_groups fetch now groups st))) = pendingRequests st"
proof (induction groups arbitrary: st)
  case Nil
  then show ?case by simp
next
  case (Cons g groups)
  obtain target items where g: "g = (target, items)" by (cases g)
  obtain calls invoked st1 where f: "flush_group fetch now target items st = (calls, invoked, st1)"
    by (cases "flush_group fetch now target items st")
  obtain calls' invoked' st2 where r: "flush_groups fetch now groups st1 = (calls', invoked', st2)"
    by (cases "flush_groups fetch now groups st1")
  from flush_group_pending [of fetch now target items st] f
  have "pendingRequests st1 = pendingRequests st" by simp
  moreover from Cons.IH [of st1] r have "pendingRequests st2 = pendingRequests st1" by simp
  ultimately show ?case
    unfolding g flush_groups_step [OF f r] by simp
qed

section \<open>What a flush writes and what it hands to the callbacks\<close>

lemma js_map_translatedText:
  "js_map translatedText_or_empty ts = Inr rs \<Longrightarrow> x \<in> set rs \<Longrightarrow> x = JStr [] \<or> js_truthy x"
proof (induction ts arbitrary: rs)
  case Nil
  then show ?case by simp
next
  case (Cons t ts)
  then show ?case
    by (cases t) (auto split: sum.splits option.splits if_splits)
qed

lemma join_firsts_string: "join_firsts ps = Inr j \<Longrightarrow> \<exists>s. j = JStr s"
  by (auto simp: join_firsts_def split: sum.splits)

lemma js_map_segment_text:
  "js_map segment_text d0 = Inr rs \<Longrightarrow> x \<in> set rs \<Longrightarrow> \<exists>s. x = JStr s"
proof (induction d0 arbitrary: rs)
  case Nil
  then show ?case by simp
next
  case (Cons d d0)
  then show ?case
    by (cases d) (auto split: sum.splits dest: join_firsts_string)
qed

lemma cloud_results_filled:
  "x \<in> set (caught (cloud_results data)) \<Longrightarrow> x = JStr [] \<or> js_truthy x"
proof (cases "cloud_results data")
  case (Inl e)
  then show "x \<in> set (caught (cloud_results data)) \<Longrightarrow> ?thesis" by simp
next
  case (Inr rs)
  assume "x \<in> set (caught (cloud_results data))"
  with Inr have x: "x \<in> set rs" by simp
  from Inr x show ?thesis
    by (auto simp: cloud_results_def split: if_splits option.splits json.splits
        dest: js_map_translatedText)
qed

lemma public_results_filled:
  "x \<in> set (caught (public_results data n)) \<Longrightarrow> x = JStr [] \<or> js_truthy x"
proof (cases "public_results data n")
  case (Inl e)
  then show "x \<in> set (caught (public_results data n)) \<Longrightarrow> ?thesis" by simp
next
  case (Inr rs)
  assume "x \<in> set (caught (public_results data n))"
  with Inr have x: "x \<in> set rs" by simp
  from Inr x have "\<exists>s. x = JStr s"
    by (auto simp: public_results_def split: if_splits option.splits json.splits sum.splits
        dest: js_map_segment_text join_firsts_string)
  then show ?thesis by auto
qed

lemma provider_results_filled:
  "x \<in> set (provider_results st fetch target tt) \<Longrightarrow> x = JStr [] \<or> js_truthy x"
  by (auto simp: provider_results_def split: fetch_outcome.splits if_splits option.splits
      dest: cloud_results_filled public_results_filled)


lemma recheck_fast_tier:
  "(k, val) \<in> set (snd (snd (recheck us mem pc))) \<Longrightarrow> (k, val) \<in> set mem \<or> js_truthy val"
proof (induction us arbitrary: mem)
  case Nil
  then show ?case by simp
next
  case (Cons u us)
  show ?case
  proof (cases "has mem (it_key u)")
    case True
    with Cons show ?thesis by simp
  next
    case False
    show ?thesis
    proof (cases "persisted_value pc (it_key u)")
      case None
      with False Cons show ?thesis by (simp split: prod.splits)
    next
      case (Some pv)
      then have t: "js_truthy pv"
        by (auto simp: persisted_value_def split: option.splits if_splits)
      from Some False Cons.prems
      have "(k, val) \<in> set (snd (snd (recheck us (AList.update (it_key u) pv mem) pc)))"
        by simp
      from Cons.IH [OF this] t show ?thesis
        by (auto dest: set_update_subset)
    qed
  qed
qed

lemma assign_loop_tiers:
  assumes "assign_loop us items ti results now mem pc = (invoked, mem2, pc2)"
  shows "((k, val) \<in> set mem2 \<longrightarrow> (k, val) \<in> set mem \<or> js_truthy val)
       \<and> ((k, e) \<in> set pc2 \<longrightarrow> (k, e) \<in> set pc \<or> js_truthy (entry_v e))"
  using assms
proof (induction us arbitrary: mem pc invoked)
  case Nil
  then show ?case by simp
next
  case (Cons u us)
  let ?tr = "translated_for (it_key u) ti results mem"
  let ?mem1 = "if js_truthy ?tr then AList.update (it_key u) ?tr mem else mem"
  let ?pc1 = "if js_truthy ?tr
            then AList.update (it_key u) \<lparr>entry_v = ?tr, entry_t = now\<rparr> pc else pc"
  obtain inv m p where rest: "assign_loop us items ti results now ?mem1 ?pc1 = (inv, m, p)"
    by (cases "assign_loop us items ti results now ?mem1 ?pc1")
  from Cons.prems assign_loop_step [OF rest] have eq: "m = mem2" "p = pc2" by simp_all
  from rest eq have rest': "assign_loop us items ti results now ?mem1 ?pc1 = (inv, mem2, pc2)"
    by simp
  from Cons.IH [OF rest']
  have ih: "(k, val) \<in> set mem2 \<longrightarrow> (k, val) \<in> set ?mem1 \<or> js_truthy val"
       "(k, e) \<in> set pc2 \<longrightarrow> (k, e) \<in> set ?pc1 \<or> js_truthy (entry_v e)"
    by simp_all
  have "(k, val) \<in> set ?mem1 \<Longrightarrow> (k, val) \<in> set mem \<or> js_truthy val"
    by (auto split: if_splits dest: set_update_subset)
  moreover have "(k, e) \<in> set ?pc1 \<Longrightarrow> (k, e) \<in> set pc \<or> js_truthy (entry_v e)"
    by (auto split: if_splits dest: set_update_subset)
  ultimately show ?case using ih by blast
qed


lemma flush_group_parts:
  assumes "flush_group fetch now target items st = (calls, invoked, st1)"
  obtains tt ti mem1 mem2 pc2
  where "recheck (dedupe items []) (inMemoryCache st) (persistentCache st) = (tt, ti, mem1)"
    and "assign_loop (dedupe items []) items ti
           (if tt \<noteq> [] then provider_results st fetch target tt else []) now mem1
           (persistentCache st) = (invoked, mem2, pc2)"
    and "calls = (if tt \<noteq> [] \<and> url_builds st target tt then [provider_request st target tt] else [])"
    and "st1 = scheduleSavePersistentCache (st\<lparr>inMemoryCache := mem2, persistentCache := pc2\<rparr>)"
proof -
  let ?us = "dedupe items []"
  obtain tt ti mem1 where r: "recheck ?us (inMemoryCache st) (persistentCache st) = (tt, ti, mem1)"
    by (cases "recheck ?us (inMemoryCache st) (persistentCache st)")
  let ?rs = "if tt \<noteq> [] then provider_results st fetch target tt else []"
  obtain inv mem2 pc2
    where a: "assign_loop ?us items ti ?rs now mem1 (persistentCache st) = (inv, mem2, pc2)"
    by (cases "assign_loop ?us items ti ?rs now mem1 (persistentCache st)")
  from assms flush_group_unfold [OF r a]
  have "invoked = inv" "calls = (if tt \<noteq> [] \<and> url_builds st target tt then [provider_request st target tt] else [])"
    "st1 = scheduleSavePersistentCache (st\<lparr>inMemoryCache := mem2, persistentCache := pc2\<rparr>)"
    by simp_all
  with r a that show thesis by simp
qed

lemma flush_group_fast_tier:
  assumes "flush_group fetch now target items st = (calls, invoked, st1)"
    and "(k, val) \<in> set (inMemoryCache st1)"
  shows "(k, val) \<in> set (inMemoryCache st) \<or> js_truthy val"
proof -
  from assms(1) obtain tt ti mem1 mem2 pc2
    where r: "recheck (dedupe items []) (inMemoryCache st) (persistentCache st) = (tt, ti, mem1)"
      and a: "assign_loop (dedupe items []) items ti
           (if tt \<noteq> [] then provider_results st fetch target tt else []) now mem1
           (persistentCache st) = (invoked, mem2, pc2)"
      and st1: "st1 = scheduleSavePersistentCache (st\<lparr>inMemoryCache := mem2, persistentCache := pc2\<rparr>)"
    by (rule flush_group_parts)
  from assms(2) st1 have "(k, val) \<in> set mem2" by simp
  with assign_loop_tiers [OF a, where k = k and val = val]
  have "(k, val) \<in> set mem1 \<or> js_truthy val" by blast
  moreover have "(k, val) \<in> set mem1 \<Longrightarrow> (k, val) \<in> set (inMemoryCache st) \<or> js_truthy val"
    using recheck_fast_tier [of k val "dedupe items []" "inMemoryCache st" "persistentCache st"] r
    by simp
  ultimately show ?thesis by blast
qed

lemma flush_group_durable_tier:
  assumes "flush_group fetch now target items st = (calls, invoked, st1)"
    and "(k, e) \<in> set (persistentCache st1)"
  shows "(k, e) \<in> set (persistentCache st) \<or> js_truthy (entry_v e)"
proof -
  from assms(1) obtain tt ti mem1 mem2 pc2
    where a: "assign_loop (dedupe items []) items ti
           (if tt \<noteq> [] then provider_results st fetch target tt else []) now mem1
           (persistentCache st) = (invoked, mem2, pc2)"
      and st1: "st1 = scheduleSavePersistentCache (st\<lparr>inMemoryCache := mem2, persistentCache := pc2\<rparr>)"
    by (rule flush_group_parts)
  from assms(2) st1 have "(k, e) \<in> set pc2" by simp
  with assign_loop_tiers [OF a, where k = k and e = e] show ?thesis by blast
qed


lemma flush_groups_parts:
  assumes "flush_groups fetch now ((target, items) # groups) st = (calls, invoked, st2)"
  obtains c1 i1 st1 c2 i2
  where "flush_group fetch now target items st = (c1, i1, st1)"
    and "flush_groups fetch now groups st1 = (c2, i2, st2)"
    and "calls = c1 @ c2" and "invoked = i1 @ i2"
proof -
  obtain c1 i1 st1 where f: "flush_group fetch now target items st = (c1, i1, st1)"
    by (cases "flush_group fetch now target items st")
  obtain c2 i2 st2' where rest: "flush_groups fetch now groups st1 = (c2, i2, st2')"
    by (cases "flush_groups fetch now groups st1")
  from assms flush_groups_step [OF f rest]
  have "calls = c1 @ c2" "invoked = i1 @ i2" "st2' = st2" by simp_all
  with f rest that show thesis by simp
qed

lemma flush_groups_fast_tier:
  assumes "flush_groups fetch now groups st = (calls, invoked, st2)"
    and "(k, val) \<in> set (inMemoryCache st2)"
  shows "(k, val) \<in> set (inMemoryCache st) \<or> js_truthy val"
  using assms
proof (induction groups arbitrary: st calls invoked)
  case Nil
  then show ?case by simp
next
  case (Cons g groups)
  obtain target items where g: "g = (target, items)" by (cases g)
  from Cons.prems(1) [unfolded g] obtain c1 i1 st1 c2 i2
    where f: "flush_group fetch now target items st = (c1, i1, st1)"
      and rest: "flush_groups fetch now groups st1 = (c2, i2, st2)"
    by (rule flush_groups_parts)
  from Cons.IH [OF rest Cons.prems(2)]
  have "(k, val) \<in> set (inMemoryCache st1) \<or> js_truthy val" .
  with flush_group_fast_tier [OF f] show ?case by blast
qed

lemma flush_groups_durable_tier:
  assumes "flush_groups fetch now groups st = (calls, invoked, st2)"
    and "(k, e) \<in> set (persistentCache st2)"
  shows "(k, e) \<in> set (persistentCache st) \<or> js_truthy (entry_v e)"
  using assms
proof (induction groups arbitrary: st calls invoked)
  case Nil
  then show ?case by simp
next
  case (Cons g groups)
  obtain target items where g: "g = (target, items)" by (cases g)
  from Cons.prems(1) [unfolded g] obtain c1 i1 st1 c2 i2
    where f: "flush_group fetch now target items st = (c1, i1, st1)"
      and rest: "flush_groups fetch now groups st1 = (c2, i2, st2)"
    by (rule flush_groups_parts)
  from Cons.IH [OF rest Cons.prems(2)]
  have "(k, e) \<in> set (persistentCache st1) \<or> js_truthy (entry_v e)" .
  with flush_group_durable_tier [OF f] show ?case by blast
qed


section \<open>A flush that gets no translation\<close>

lemma provider_results_settings:
  "USE_CLOUD st' = USE_CLOUD st \<Longrightarrow> GOOGLE_API_KEY st' = GOOGLE_API_KEY st \<Longrightarrow>
   provider_results st' fetch target tt = provider_results st fetch target tt"
  by (simp add: provider_results_def provider_request_def url_builds_def
      split: fetch_outcome.splits option.splits)

lemma dedupe_subset: "set (dedupe items seen) \<subseteq> set items"
  by (induction items arbitrary: seen) auto

lemma recheck_uncached:
  "\<forall>u\<in>set us. map_of mem (it_key u) = None \<and> persisted_value pc (it_key u) = None \<Longrightarrow>
   recheck us mem pc = (map it_text us, map it_key us, mem)"
  by (induction us) (simp_all add: has_def)

lemma translated_for_uncached:
  assumes "map_of mem key = None" and "\<forall>x\<in>set results. x = JStr []"
  shows "translated_for key ti results mem = JStr []"
  using assms by (auto simp: translated_for_def Let_def split: option.splits)

lemma assign_loop_nothing:
  assumes "\<forall>u\<in>set us. map_of mem (it_key u) = None" and "\<forall>x\<in>set results. x = JStr []"
  shows "assign_loop us items ti results now mem pc
     = (concat (map (\<lambda>u. resolve_key items (it_key u) (JStr [])) us), mem, pc)"
  using assms(1)
proof (induction us)
  case Nil
  then show ?case by simp
next
  case (Cons u us)
  then have tr: "translated_for (it_key u) ti results mem = JStr []"
    using translated_for_uncached [OF _ assms(2)] by simp
  from Cons have "assign_loop us items ti results now mem pc
     = (concat (map (\<lambda>u. resolve_key items (it_key u) (JStr [])) us), mem, pc)" by simp
  then show ?case
    by (intro assign_loop_step [THEN trans]) (simp_all add: tr)
qed

lemma flush_group_nothing:
  assumes uncached: "\<forall>it\<in>set items. map_of (inMemoryCache st) (it_key it) = None
                        \<and> persisted_value (persistentCache st) (it_key it) = None"
    and failing: "\<forall>tt. \<forall>x\<in>set (provider_results st fetch target tt). \<not> js_truthy x"
    and run: "flush_group fetch now target items st = (calls, invoked, st1)"
  shows "st1 = scheduleSavePersistentCache st" and "\<forall>(r, x)\<in>set invoked. x = JStr []"
proof -
  let ?us = "dedupe items []"
  from uncached dedupe_subset [of items "[]"]
  have un: "\<forall>u\<in>set ?us. map_of (inMemoryCache st) (it_key u) = None
      \<and> persisted_value (persistentCache st) (it_key u) = None" by blast
  note r = recheck_uncached [OF un]
  let ?rs = "if map it_text ?us \<noteq> [] then provider_results st fetch target (map it_text ?us) else []"
  have empty: "\<forall>x\<in>set ?rs. x = JStr []"
    using failing provider_results_filled [of _ st fetch target "map it_text ?us"] by auto
  from un have un': "\<forall>u\<in>set ?us. map_of (inMemoryCache st) (it_key u) = None" by blast
  note a = assign_loop_nothing [OF un' empty, of items "map it_key ?us" now "persistentCache st"]
  from run flush_group_unfold [OF r a]
  have st1: "st1 = scheduleSavePersistentCache
                 (st\<lparr>inMemoryCache := inMemoryCache st, persistentCache := persistentCache st\<rparr>)"
    and inv: "invoked = concat (map (\<lambda>u. resolve_key items (it_key u) (JStr [])) ?us)"
    by simp_all
  from st1 show "st1 = scheduleSavePersistentCache st" by simp
  from inv show "\<forall>(r, x)\<in>set invoked. x = JStr []"
    by (auto dest: resolve_key_values)
qed

lemma flush_groups_nothing:
  assumes "\<forall>it\<in>set (all_items groups). map_of (inMemoryCache st) (it_key it) = None
                        \<and> persisted_value (persistentCache st) (it_key it) = None"
    and "\<forall>target tt. \<forall>x\<in>set (provider_results st fetch target tt). \<not> js_truthy x"
    and "flush_groups fetch now groups st = (calls, invoked, st2)"
  shows "inMemoryCache st2 = inMemoryCache st \<and> persistentCache st2 = persistentCache st
       \<and> USE_CLOUD st2 = USE_CLOUD st \<and> GOOGLE_API_KEY st2 = GOOGLE_API_KEY st
       \<and> (\<forall>(r, x)\<in>set invoked. x = JStr [])"
  using assms
proof (induction groups arbitrary: st calls invoked)
  case Nil
  then show ?case by simp
next
  case (Cons g groups)
  obtain target items where g: "g = (target, items)" by (cases g)
  from Cons.prems(3) [unfolded g] obtain c1 i1 st1 c2 i2
    where f: "flush_group fetch now target items st = (c1, i1, st1)"
      and rest: "flush_groups fetch now groups st1 = (c2, i2, st2)"
      and inv: "invoked = i1 @ i2"
    by (rule flush_groups_parts)
  from Cons.prems(1) g
  have un1: "\<forall>it\<in>set items. map_of (inMemoryCache st) (it_key it) = None
                        \<and> persisted_value (persistentCache st) (it_key it) = None"
    and un2: "\<forall>it\<in>set (all_items groups). map_of (inMemoryCache st) (it_key it) = None
                        \<and> persisted_value (persistentCache st) (it_key it) = None"
    by (auto simp: all_items_def)
  from Cons.prems(2)
  have fail1: "\<forall>tt. \<forall>x\<in>set (provider_results st fetch target tt). \<not> js_truthy x" by blast
  from flush_group_nothing [OF un1 fail1 f]
  have st1: "st1 = scheduleSavePersistentCache st" and v1: "\<forall>(r, x)\<in>set i1. x = JStr []" by blast+
  have un2': "\<forall>it\<in>set (all_items groups). map_of (inMemoryCache st1) (it_key it) = None
                        \<and> persisted_value (persistentCache st1) (it_key it) = None"
    using un2 st1 by simp
  have fail2: "\<forall>target tt. \<forall>x\<in>set (provider_results st1 fetch target tt). \<not> js_truthy x"
    using Cons.prems(2) provider_results_settings [of st1 st] st1 by simp
  from Cons.IH [OF un2' fail2 rest] st1 v1 inv show ?case by auto
qed

lemma group_by_target_keys:
  "it_key ` set (all_items (group_by_target pend [])) = fst ` set pend"
proof -
  let ?mk = "\<lambda>(k, p). \<lparr>it_key = k, it_text = pr_text p, it_resolvers = pr_resolvers p\<rparr>"
  have "mset (all_items (group_by_target pend [])) = mset (map ?mk pend)"
    using group_by_target_items [of pend "[]"] by (simp add: all_items_def)
  then have "set (all_items (group_by_target pend [])) = set (map ?mk pend)"
    by (rule mset_eq_setD)
  then show ?thesis by force
qed

lemma flushPendingRequests_nothing:
  assumes "\<forall>k\<in>fst ` set (pendingRequests st). map_of (inMemoryCache st) k = None
                        \<and> persisted_value (persistentCache st) k = None"
    and "\<forall>target tt. \<forall>x\<in>set (provider_results st fetch target tt). \<not> js_truthy x"
    and "flushPendingRequests st fetch now = (calls, invoked, st2)"
  shows "inMemoryCache st2 = inMemoryCache st \<and> persistentCache st2 = persistentCache st
       \<and> USE_CLOUD st2 = USE_CLOUD st \<and> GOOGLE_API_KEY st2 = GOOGLE_API_KEY st
       \<and> pendingRequests st2 = []
       \<and> (\<forall>(r, x)\<in>set invoked. x = JStr [])"
proof (cases "pendingRequests st = []")
  case True
  with assms(3) show ?thesis by (auto simp: flushPendingRequests_def)
next
  case False
  let ?st = "st\<lparr>pendingRequests := []\<rparr>"
  let ?groups = "group_by_target (pendingRequests st) []"
  from False assms(3) have run: "flush_groups fetch now ?groups ?st = (calls, invoked, st2)"
    by (simp add: flushPendingRequests_def)
  have un: "\<forall>it\<in>set (all_items ?groups). map_of (inMemoryCache ?st) (it_key it) = None
                        \<and> persisted_value (persistentCache ?st) (it_key it) = None"
  proof
    fix it
    assume "it \<in> set (all_items ?groups)"
    then have "it_key it \<in> it_key ` set (all_items ?groups)" by (rule imageI)
    then have "it_key it \<in> fst ` set (pendingRequests st)"
      by (simp only: group_by_target_keys)
    with assms(1) have "map_of (inMemoryCache st) (it_key it) = None
                        \<and> persisted_value (persistentCache st) (it_key it) = None"
      by blast
    then show "map_of (inMemoryCache ?st) (it_key it) = None
                        \<and> persisted_value (persistentCache ?st) (it_key it) = None"
      by simp
  qed
  have fail: "\<forall>target tt. \<forall>x\<in>set (provider_results ?st fetch target tt). \<not> js_truthy x"
    using assms(2) provider_results_settings [of ?st st] by simp
  from flush_groups_pending [of fetch now ?groups ?st] run
  have "pendingRequests st2 = []" by simp
  with flush_groups_nothing [OF un fail run] show ?thesis by simp
qed

text \<open>A flush of one pending item that neither tier holds.\<close>

lemma flush_one_uncached:
  assumes "pendingRequests s = [(key, \<lparr>pr_text = text, pr_target = target, pr_resolvers = rs\<rparr>)]"
    and "target \<noteq> []"
    and "map_of (inMemoryCache s) key = None"
    and "persisted_value (persistentCache s) key = None"
  shows "fst (flushPendingRequests s fetch now)
      = (if url_builds s target [text] then [provider_request s target [text]] else [])"
    and "fst (snd (flushPendingRequests s fetch now))
      = map (\<lambda>r. (r, case provider_results s fetch target [text] of [] \<Rightarrow> JStr [] | x # xs \<Rightarrow> x)) rs"
proof -
  let ?s = "s\<lparr>pendingRequests := []\<rparr>"
  let ?it = "\<lparr>it_key = key, it_text = text, it_resolvers = rs\<rparr>"
  let ?results = "provider_results s fetch target [text]"
  let ?val = "case ?results of [] \<Rightarrow> JStr [] | x # xs \<Rightarrow> x"
  have groups: "group_by_target (pendingRequests s) [] = [(target, [?it])]"
    using assms(1,2) by simp
  have r: "recheck (dedupe [?it] []) (inMemoryCache ?s) (persistentCache ?s)
      = ([text], [key], inMemoryCache s)"
    using assms(3,4) by (simp add: has_def)
  have tr: "translated_for key [key] ?results (inMemoryCache s) = ?val"
    using assms(3) by (cases ?results) (simp_all add: translated_for_def)
  have res: "provider_results ?s fetch target [text] = ?results"
    by (rule provider_results_settings) simp_all
  obtain inv mem2 pc2 where a: "assign_loop (dedupe [?it] []) [?it] [key]
           (if [text] \<noteq> [] then provider_results ?s fetch target [text] else []) now
           (inMemoryCache s) (persistentCache ?s) = (inv, mem2, pc2)"
    by (cases "assign_loop (dedupe [?it] []) [?it] [key]
           (if [text] \<noteq> [] then provider_results ?s fetch target [text] else []) now
           (inMemoryCache s) (persistentCache ?s)")
  then have inv: "inv = map (\<lambda>r. (r, ?val)) rs"
    by (cases "js_truthy ?val") (auto simp: res tr resolve_key_def Let_def)
  from flush_group_unfold [OF r a]
  have fg: "flush_group fetch now target [?it] ?s
     = ((if url_builds ?s target [text] then [provider_request ?s target [text]] else []), inv,
        scheduleSavePersistentCache (?s\<lparr>inMemoryCache := mem2, persistentCache := pc2\<rparr>))"
    by simp
  have req: "provider_request ?s target [text] = provider_request s target [text]"
    by (simp add: provider_request_def)
  have url: "url_builds ?s target [text] = url_builds s target [text]"
    by (simp add: url_builds_def)
  from assms(1) have ne: "pendingRequests s \<noteq> []" by simp
  show "fst (flushPendingRequests s fetch now)
      = (if url_builds s target [text] then [provider_request s target [text]] else [])"
    using ne by (simp add: flushPendingRequests_def groups fg req url)
  show "fst (snd (flushPendingRequests s fetch now)) = map (\<lambda>r. (r, ?val)) rs"
    using ne by (simp add: flushPendingRequests_def groups fg inv)
qed

section \<open>Requests that miss both tiers\<close>

lemma schedulePendingFlush_fields [simp]:
  "inMemoryCache (schedulePendingFlush st) = inMemoryCache st"
  "persistentCache (schedulePendingFlush st) = persistentCache st"
  "pendingRequests (schedulePendingFlush st) = pendingRequests st"
  "USE_CLOUD (schedulePendingFlush st) = USE_CLOUD st"
  "GOOGLE_API_KEY (schedulePendingFlush st) = GOOGLE_API_KEY st"
  "MAX_PERSIST_ENTRIES (schedulePendingFlush st) = MAX_PERSIST_ENTRIES st"
  "CACHE_TTL_DAYS (schedulePendingFlush st) = CACHE_TTL_DAYS st"
  "saveTimer (schedulePendingFlush st) = saveTimer st"
  "pendingFlushTimer (schedulePendingFlush st) = True"
  by (simp_all add: schedulePendingFlush_def)

lemma queueTranslationRequest_fields [simp]:
  "inMemoryCache (queueTranslationRequest st key text target r) = inMemoryCache st"
  "persistentCache (queueTranslationRequest st key text target r) = persistentCache st"
  "USE_CLOUD (queueTranslationRequest st key text target r) = USE_CLOUD st"
  "GOOGLE_API_KEY (queueTranslationRequest st key text target r) = GOOGLE_API_KEY st"
  "pendingFlushTimer (queueTranslationRequest st key text target r) = True"
  by (simp_all add: queueTranslationRequest_def split: option.splits)

lemma queueTranslationRequest_first:
  "pendingRequests st = [] \<Longrightarrow>
   pendingRequests (queueTranslationRequest st key text target r)
     = [(key, \<lparr>pr_text = text, pr_target = target, pr_resolvers = [r]\<rparr>)]"
  by (simp add: queueTranslationRequest_def)

lemma queueTranslationRequest_again:
  "pendingRequests st = [(key, \<lparr>pr_text = text0, pr_target = target0, pr_resolvers = rs0\<rparr>)] \<Longrightarrow>
   pendingRequests (queueTranslationRequest st key text target r)
     = [(key, \<lparr>pr_text = text0, pr_target = target0, pr_resolvers = rs0 @ [r]\<rparr>)]"
  by (simp add: queueTranslationRequest_def)

lemma doTranslate_miss:
  assumes "text \<noteq> []" and "target \<noteq> []"
    and "map_of (inMemoryCache st) (cacheKey (USE_CLOUD st) text target) = None"
    and "persisted_value (persistentCache st) (cacheKey (USE_CLOUD st) text target) = None"
  shows "doTranslate st text target r
     = (Queued, queueTranslationRequest st (cacheKey (USE_CLOUD st) text target) text target r)"
  using assms by (simp add: doTranslate_def Let_def)

section \<open>The whole flush\<close>

lemma flushPendingRequests_run:
  obtains "pendingRequests st = []" and "flushPendingRequests st fetch now = ([], [], st)"
  | "pendingRequests st \<noteq> []"
    and "flushPendingRequests st fetch now
           = flush_groups fetch now (group_by_target (pendingRequests st) [])
               (st\<lparr>pendingRequests := []\<rparr>)"
  by (cases "pendingRequests st = []") (simp_all add: flushPendingRequests_def)

lemma flushPendingRequests_callers:
  "mset (map fst (fst (snd (flushPendingRequests st fetch now)))) = mset (registered (pendingRequests st))"
proof (rule flushPendingRequests_run [of st fetch now])
  assume "pendingRequests st = []" and "flushPendingRequests st fetch now = ([], [], st)"
  then show ?thesis by (simp add: registered_def)
next
  assume "flushPendingRequests st fetch now
           = flush_groups fetch now (group_by_target (pendingRequests st) [])
               (st\<lparr>pendingRequests := []\<rparr>)"
  then show ?thesis
    using flush_groups_callers [of fetch now "group_by_target (pendingRequests st) []"
                                   "st\<lparr>pendingRequests := []\<rparr>"]
      group_by_target_resolvers [of "pendingRequests st"]
    by simp
qed



lemma flushPendingRequests_fast_tier:
  assumes "(k, val) \<in> set (inMemoryCache (snd (snd (flushPendingRequests st fetch now))))"
  shows "(k, val) \<in> set (inMemoryCache st) \<or> js_truthy val"
proof (rule flushPendingRequests_run [of st fetch now])
  assume "flushPendingRequests st fetch now = ([], [], st)"
  with assms show ?thesis by simp
next
  let ?st = "st\<lparr>pendingRequests := []\<rparr>"
  let ?groups = "group_by_target (pendingRequests st) []"
  assume eq: "flushPendingRequests st fetch now = flush_groups fetch now ?groups ?st"
  obtain calls invoked st2 where run: "flush_groups fetch now ?groups ?st = (calls, invoked, st2)"
    by (cases "flush_groups fetch now ?groups ?st")
  with assms eq have "(k, val) \<in> set (inMemoryCache st2)" by simp
  from flush_groups_fast_tier [OF run this] show ?thesis by simp
qed

lemma flushPendingRequests_durable_tier:
  assumes "(k, e) \<in> set (persistentCache (snd (snd (flushPendingRequests st fetch now))))"
  shows "(k, e) \<in> set (persistentCache st) \<or> js_truthy (entry_v e)"
proof (rule flushPendingRequests_run [of st fetch now])
  assume "flushPendingRequests st fetch now = ([], [], st)"
  with assms show ?thesis by simp
next
  let ?st = "st\<lparr>pendingRequests := []\<rparr>"
  let ?groups = "group_by_target (pendingRequests st) []"
  assume eq: "flushPendingRequests st fetch now = flush_groups fetch now ?groups ?st"
  obtain calls invoked st2 where run: "flush_groups fetch now ?groups ?st = (calls, invoked, st2)"
    by (cases "flush_groups fetch now ?groups ?st")
  with assms eq have "(k, e) \<in> set (persistentCache st2)" by simp
  from flush_groups_durable_tier [OF run this] show ?thesis by simp
qed

section \<open>The shape of the adapter's results\<close>

lemma js_map_length: "js_map f xs = Inr ys \<Longrightarrow> length ys = length xs"
proof (induction xs arbitrary: ys)
  case Nil
  then show ?case by simp
next
  case (Cons x xs)
  then show ?case by (auto split: sum.splits)
qed

lemma cloud_results_shape:
  assumes "caught (cloud_results data) \<noteq> []"
  shows "\<exists>d ts. js_prop data ''data'' = Some d \<and> js_prop d ''translations'' = Some (JArr ts)
           \<and> length (caught (cloud_results data)) = length ts"
proof -
  from assms obtain rs where rs: "cloud_results data = Inr rs" and ne: "rs \<noteq> []"
    by (cases "cloud_results data") auto
  from rs ne obtain d where d: "js_prop data ''data'' = Some d"
    by (cases "js_prop data ''data''") (auto simp: cloud_results_def split: if_splits)
  from rs ne d obtain x where x: "js_prop d ''translations'' = Some x"
    by (cases "js_prop d ''translations''") (auto simp: cloud_results_def split: if_splits)
  from rs ne d x obtain ts where ts: "x = JArr ts"
    by (cases x) (auto simp: cloud_results_def split: if_splits)
  from rs ne d x ts have "js_map translatedText_or_empty ts = Inr rs"
    by (auto simp: cloud_results_def split: if_splits)
  then have "length rs = length ts" by (rule js_map_length)
  with d x ts rs show ?thesis by simp
qed

lemma public_results_shape:
  assumes "caught (public_results data n) \<noteq> []"
  shows "\<exists>d0 rest. data = JArr (JArr d0 # rest)
           \<and> (isArray (first d0) \<and> length d0 = n
                \<longrightarrow> length (caught (public_results data n)) = n)"
proof -
  from assms obtain rs where rs: "public_results data n = Inr rs" and ne: "rs \<noteq> []"
    by (cases "public_results data n") auto
  from rs ne obtain ds where ds: "data = JArr ds"
    by (cases data) (auto simp: public_results_def)
  from rs ne ds obtain x rest where xs: "ds = x # rest"
    by (cases ds) (auto simp: public_results_def)
  from rs ne ds xs obtain d0 where d0: "x = JArr d0"
    by (cases x) (auto simp: public_results_def)
  have "length rs = n" if match: "isArray (first d0) \<and> length d0 = n"
  proof -
    from match rs ds xs d0 have "js_map segment_text d0 = Inr rs"
      by (simp add: public_results_def)
    then have "length rs = length d0" by (rule js_map_length)
    with match show ?thesis by simp
  qed
  with rs ds xs d0 show ?thesis by simp
qed

lemma js_map_returns:
  assumes "\<forall>x\<in>set xs. \<exists>y. f x = Inr y"
  shows "\<exists>ys. js_map f xs = Inr ys \<and> length ys = length xs
           \<and> (\<forall>i < length xs. f (xs ! i) = Inr (ys ! i))"
  using assms
proof (induction xs)
  case Nil
  then show ?case by simp
next
  case (Cons x xs)
  from Cons.prems obtain y where y: "f x = Inr y" by auto
  from Cons.prems have "\<forall>x\<in>set xs. \<exists>y. f x = Inr y" by simp
  from Cons.IH [OF this] obtain ys where ys: "js_map f xs = Inr ys" "length ys = length xs"
    "\<forall>i < length xs. f (xs ! i) = Inr (ys ! i)" by blast
  have "f ((x # xs) ! i) = Inr ((y # ys) ! i)" if "i < length (x # xs)" for i
    using that y ys(3) by (cases i) simp_all
  with y ys(1,2) show ?case by simp
qed

lemma js_map_throws:
  assumes "x \<in> set xs" and "f x = Inl e"
  shows "\<exists>e'. js_map f xs = Inl e'"
  using assms(1)
proof (induction xs)
  case Nil
  then show ?case by simp
next
  case (Cons a xs)
  show ?case
  proof (cases "f a")
    case (Inl e')
    then show ?thesis by simp
  next
    case (Inr y)
    with Cons assms(2) have "x \<in> set xs" by auto
    from Cons.IH [OF this] Inr show ?thesis by auto
  qed
qed

lemma translatedText_or_empty_returns:
  "t \<noteq> JNull \<Longrightarrow> \<exists>y. translatedText_or_empty t = Inr y"
  by (cases t) (simp_all split: option.splits)

lemma js_index0_returns: "p \<noteq> JNull \<Longrightarrow> \<exists>y. js_index0 p = Inr y"
  by (cases p rule: js_index0.cases) simp_all

lemma join_firsts_returns:
  assumes "JNull \<notin> set ps"
  shows "\<exists>y. join_firsts ps = Inr y"
proof -
  from assms have "\<forall>p\<in>set ps. \<exists>y. js_index0 p = Inr y" by (auto intro: js_index0_returns)
  from js_map_returns [OF this] obtain xs where "js_map js_index0 ps = Inr xs" by blast
  then show ?thesis by (simp add: join_firsts_def)
qed

lemma join_firsts_throws:
  assumes "JNull \<in> set ps"
  shows "\<exists>e. join_firsts ps = Inl e"
proof -
  from js_map_throws [OF assms, of js_index0 TypeError]
  obtain e where "js_map js_index0 ps = Inl e" by auto
  then show ?thesis by (simp add: join_firsts_def)
qed

lemma segment_text_throws:
  assumes "\<forall>ps. seg = JArr ps \<longrightarrow> JNull \<in> set ps"
  shows "\<exists>e. segment_text seg = Inl e"
  using assms by (cases seg) (simp_all add: join_firsts_throws)

lemma cloud_results_no_null:
  assumes "caught (cloud_results data) \<noteq> []"
    and "js_prop data ''data'' = Some d" and "js_prop d ''translations'' = Some (JArr ts)"
  shows "JNull \<notin> set ts"
proof
  assume "JNull \<in> set ts"
  from js_map_throws [OF this, of translatedText_or_empty TypeError]
  obtain e where "js_map translatedText_or_empty ts = Inl e" by auto
  with assms(2,3) have "caught (cloud_results data) = []"
    by (simp add: cloud_results_def)
  with assms(1) show False by simp
qed

lemma cloud_results_each:
  assumes "js_prop data ''data'' = Some d" and "js_prop d ''translations'' = Some (JArr ts)"
    and "JNull \<notin> set ts"
  shows "length (caught (cloud_results data)) = length ts
       \<and> (\<forall>i < length ts. translatedText_or_empty (ts ! i) = Inr (caught (cloud_results data) ! i))"
proof -
  from assms(1) have t1: "js_truthy data" by (cases data) simp_all
  from assms(2) have t2: "js_truthy d" by (cases d) simp_all
  from assms(3) have "\<forall>t\<in>set ts. \<exists>y. translatedText_or_empty t = Inr y"
    by (auto intro: translatedText_or_empty_returns)
  from js_map_returns [OF this] obtain ys where ys: "js_map translatedText_or_empty ts = Inr ys"
    "length ys = length ts" "\<forall>i < length ts. translatedText_or_empty (ts ! i) = Inr (ys ! i)"
    by blast
  from assms(1,2) t1 t2 ys(1) have "caught (cloud_results data) = ys"
    by (simp add: cloud_results_def)
  with ys(2,3) show ?thesis by simp
qed

lemma public_results_each:
  assumes "data = JArr (JArr d0 # rest)" and "isArray (first d0)" and "length d0 = n"
    and "\<forall>seg\<in>set d0. \<exists>ps. seg = JArr ps \<and> JNull \<notin> set ps"
  shows "length (caught (public_results data n)) = n
       \<and> (\<forall>i < n. segment_text (d0 ! i) = Inr (caught (public_results data n) ! i))"
proof -
  have "\<exists>y. segment_text seg = Inr y" if "seg \<in> set d0" for seg
  proof -
    from assms(4) that obtain ps where "seg = JArr ps" "JNull \<notin> set ps" by blast
    then show ?thesis by (simp add: join_firsts_returns)
  qed
  then have "\<forall>seg\<in>set d0. \<exists>y. segment_text seg = Inr y" by blast
  from js_map_returns [OF this] obtain ys where ys: "js_map segment_text d0 = Inr ys"
    "length ys = length d0" "\<forall>i < length d0. segment_text (d0 ! i) = Inr (ys ! i)"
    by blast
  from assms(1,2,3) ys(1) have "caught (public_results data n) = ys"
    by (simp add: public_results_def)
  with ys(2,3) assms(3) show ?thesis by simp
qed

lemma public_results_throws:
  assumes "data = JArr (JArr d0 # rest)" and "isArray (first d0)" and "length d0 = n"
    and "seg \<in> set d0" and "\<forall>ps. seg = JArr ps \<longrightarrow> JNull \<in> set ps"
  shows "caught (public_results data n) = []"
proof -
  from segment_text_throws [OF assms(5)] obtain e where e: "segment_text seg = Inl e" ..
  from js_map_throws [of seg d0 segment_text e] assms(4) e
  obtain e' where "js_map segment_text d0 = Inl e'" by blast
  with assms(1,2,3) show ?thesis by (simp add: public_results_def)
qed

lemma public_results_nested:
  assumes "caught (public_results data n) \<noteq> []"
  shows "\<exists>d0 rest. data = JArr (JArr d0 # rest)"
proof -
  from public_results_shape [OF assms] show ?thesis by blast
qed

section \<open>The pending map during a window\<close>

lemma callers_of_snoc:
  "callers_of tx target (seen @ [(t, g, r)])
     = (if t = tx \<and> g = target then callers_of tx target seen @ [r] else callers_of tx target seen)"
  by (simp add: callers_of_def)

lemma registered_append [simp]: "registered (xs @ ys) = registered xs @ registered ys"
  by (simp add: registered_def)

lemma registered_update_new:
  "map_of pend k = None \<Longrightarrow>
   mset (registered (AList.update k p pend)) = mset (registered pend) + mset (pr_resolvers p)"
  by (induction pend) (auto simp: registered_def)

lemma registered_update_old:
  "map_of pend k = Some p \<Longrightarrow>
   mset (registered (AList.update k (p\<lparr>pr_resolvers := pr_resolvers p @ [r]\<rparr>) pend))
     = mset (registered pend) + {#r#}"
  by (induction pend) (auto simp: registered_def)

lemma map_of_wf_entry:
  assumes "\<forall>(k, p) \<in> set pend. k = cacheKey m (pr_text p) (pr_target p) \<and> pr_target p \<noteq> []"
    and "map_of pend k = Some p"
  shows "k = cacheKey m (pr_text p) (pr_target p) \<and> pr_target p \<noteq> []"
  using assms by (auto dest: map_of_SomeD)

lemma subset_mset_add_right: "A \<subseteq># B \<Longrightarrow> A \<subseteq># add_mset x B"
  by (simp add: subseteq_mset_def le_SucI)

lemma window_inv_step:
  assumes inv: "window_inv m tx target seen s"
    and ne: "tx \<noteq> []" "target \<noteq> []"
    and nocoll: "cacheKey m t g = cacheKey m tx target \<longrightarrow> t = tx \<and> g = target"
  shows "window_inv m tx target (seen @ [(t, g, r)]) (snd (doTranslate s t g r))
       \<and> (t = tx \<and> g = target \<longrightarrow> fst (doTranslate s t g r) = Queued)"
proof -
  let ?key = "cacheKey m tx target"
  let ?k = "cacheKey m t g"
  let ?pend = "pendingRequests s"
  from inv have mode: "USE_CLOUD s = m"
    and m0: "map_of (inMemoryCache s) ?key = None"
    and d0: "persisted_value (persistentCache s) ?key = None"
    and dist: "distinct (map fst ?pend)"
    and wf: "\<forall>(k, p) \<in> set ?pend. k = cacheKey m (pr_text p) (pr_target p) \<and> pr_target p \<noteq> []"
    and entry: "map_of ?pend ?key
          = (if callers_of tx target seen = [] then None
             else Some \<lparr>pr_text = tx, pr_target = target, pr_resolvers = callers_of tx target seen\<rparr>)"
    and sub: "mset (registered ?pend) \<subseteq># mset (map (\<lambda>(t, g, r). r) seen)"
    by (simp_all add: window_inv_def)
  have sub': "mset (registered ?pend) \<subseteq># mset (map (\<lambda>(t, g, r). r) (seen @ [(t, g, r)]))"
    using sub by (simp add: subset_mset_add_right)
  consider (blank) "t = [] \<or> g = []"
    | (fast) val where "t \<noteq> []" "g \<noteq> []" "map_of (inMemoryCache s) ?k = Some val"
    | (durable) val where "t \<noteq> []" "g \<noteq> []" "map_of (inMemoryCache s) ?k = None"
        "persisted_value (persistentCache s) ?k = Some val"
    | (miss) "t \<noteq> []" "g \<noteq> []" "map_of (inMemoryCache s) ?k = None"
        "persisted_value (persistentCache s) ?k = None"
    by (cases "map_of (inMemoryCache s) ?k"; cases "persisted_value (persistentCache s) ?k") auto
  then show ?thesis
  proof cases
    case blank
    then have run: "doTranslate s t g r = (Resolved (JStr []), s)" by (auto simp: doTranslate_def)
    from blank ne have other: "\<not> (t = tx \<and> g = target)" by auto
    then have "callers_of tx target (seen @ [(t, g, r)]) = callers_of tx target seen"
      by (simp add: callers_of_snoc)
    with inv sub' other show ?thesis
      unfolding run by (simp add: window_inv_def)
  next
    case fast
    then have run: "doTranslate s t g r = (Resolved val, s)"
      by (simp add: doTranslate_def Let_def mode)
    from fast m0 have "?k \<noteq> ?key" by auto
    then have other: "\<not> (t = tx \<and> g = target)" by auto
    then have "callers_of tx target (seen @ [(t, g, r)]) = callers_of tx target seen"
      by (simp add: callers_of_snoc)
    with inv sub' other show ?thesis
      unfolding run by (simp add: window_inv_def)
  next
    case durable
    then have run: "doTranslate s t g r
        = (Resolved val, s\<lparr>inMemoryCache := AList.update ?k val (inMemoryCache s)\<rparr>)"
      by (simp add: doTranslate_def Let_def mode)
    from durable d0 have diff: "?k \<noteq> ?key" by auto
    then have other: "\<not> (t = tx \<and> g = target)" by auto
    then have c: "callers_of tx target (seen @ [(t, g, r)]) = callers_of tx target seen"
      by (simp add: callers_of_snoc)
    have "map_of (AList.update ?k val (inMemoryCache s)) ?key = None"
      using m0 diff by (simp add: update_conv')
    with inv sub' other c show ?thesis
      unfolding run by (simp add: window_inv_def)
  next
    case miss
    let ?s1 = "queueTranslationRequest s ?k t g r"
    have run: "doTranslate s t g r = (Queued, ?s1)"
      using doTranslate_miss [of t g s r] miss mode by simp
    have caches: "USE_CLOUD ?s1 = m" "map_of (inMemoryCache ?s1) ?key = None"
      "persisted_value (persistentCache ?s1) ?key = None"
      using mode m0 d0 by simp_all
    show ?thesis
    proof (cases "map_of ?pend ?k")
      case None
      let ?p = "\<lparr>pr_text = t, pr_target = g, pr_resolvers = [r]\<rparr>"
      have pend1: "pendingRequests ?s1 = AList.update ?k ?p ?pend"
        using None by (simp add: queueTranslationRequest_def)
      have dist1: "distinct (map fst (pendingRequests ?s1))"
        unfolding pend1 using dist by (rule distinct_update)
      have wf1: "\<forall>(k, p) \<in> set (pendingRequests ?s1).
            k = cacheKey m (pr_text p) (pr_target p) \<and> pr_target p \<noteq> []"
        unfolding pend1 using wf miss(2) by (auto dest: set_update_subset)
      have reg1: "mset (registered (pendingRequests ?s1)) \<subseteq># mset (map (\<lambda>(t, g, r). r) (seen @ [(t, g, r)]))"
        unfolding pend1 using registered_update_new [OF None, of ?p] sub by simp
      have entry1: "map_of (pendingRequests ?s1) ?key
          = (if callers_of tx target (seen @ [(t, g, r)]) = [] then None
             else Some \<lparr>pr_text = tx, pr_target = target,
                        pr_resolvers = callers_of tx target (seen @ [(t, g, r)])\<rparr>)"
      proof (cases "?k = ?key")
        case True
        with nocoll have same: "t = tx" "g = target" by auto
        from True None entry have "callers_of tx target seen = []" by (auto split: if_splits)
        with same True show ?thesis
          unfolding pend1 by (simp add: update_conv' callers_of_snoc)
      next
        case False
        then have "\<not> (t = tx \<and> g = target)" by auto
        with False entry show ?thesis
          unfolding pend1 by (simp add: update_conv' callers_of_snoc)
      qed
      from caches dist1 wf1 reg1 entry1 show ?thesis
        unfolding run by (simp add: window_inv_def)
    next
      case (Some p)
      let ?p = "p\<lparr>pr_resolvers := pr_resolvers p @ [r]\<rparr>"
      have pend1: "pendingRequests ?s1 = AList.update ?k ?p ?pend"
        using Some by (simp add: queueTranslationRequest_def)
      have dist1: "distinct (map fst (pendingRequests ?s1))"
        unfolding pend1 using dist by (rule distinct_update)
      from map_of_wf_entry [OF wf Some]
      have pk: "?k = cacheKey m (pr_text p) (pr_target p)" "pr_target p \<noteq> []" by simp_all
      have wf1: "\<forall>(k, p) \<in> set (pendingRequests ?s1).
            k = cacheKey m (pr_text p) (pr_target p) \<and> pr_target p \<noteq> []"
        unfolding pend1 using wf pk by (auto dest: set_update_subset)
      have reg1: "mset (registered (pendingRequests ?s1)) \<subseteq># mset (map (\<lambda>(t, g, r). r) (seen @ [(t, g, r)]))"
        unfolding pend1 using registered_update_old [OF Some, of r] sub by simp
      have entry1: "map_of (pendingRequests ?s1) ?key
          = (if callers_of tx target (seen @ [(t, g, r)]) = [] then None
             else Some \<lparr>pr_text = tx, pr_target = target,
                        pr_resolvers = callers_of tx target (seen @ [(t, g, r)])\<rparr>)"
      proof (cases "?k = ?key")
        case True
        with nocoll have same: "t = tx" "g = target" by auto
        from True Some entry
        have p: "p = \<lparr>pr_text = tx, pr_target = target, pr_resolvers = callers_of tx target seen\<rparr>"
          by (auto split: if_splits)
        with same True show ?thesis
          unfolding pend1 by (simp add: update_conv' callers_of_snoc)
      next
        case False
        then have "\<not> (t = tx \<and> g = target)" by auto
        with False entry show ?thesis
          unfolding pend1 by (simp add: update_conv' callers_of_snoc)
      qed
      from caches dist1 wf1 reg1 entry1 show ?thesis
        unfolding run by (simp add: window_inv_def)
    qed
  qed
qed

lemma translate_requests_inv:
  assumes "tx \<noteq> []" "target \<noteq> []"
    and "window_inv m tx target seen s"
    and "\<forall>(t, g, r) \<in> set reqs. cacheKey m t g = cacheKey m tx target \<longrightarrow> t = tx \<and> g = target"
  shows "window_inv m tx target (seen @ reqs) (snd (translate_requests s reqs))
       \<and> length (fst (translate_requests s reqs)) = length reqs
       \<and> (\<forall>i < length reqs. fst (reqs ! i) = tx \<and> fst (snd (reqs ! i)) = target
            \<longrightarrow> fst (translate_requests s reqs) ! i = Queued)"
  using assms(3,4)
proof (induction reqs arbitrary: s seen)
  case Nil
  then show ?case by simp
next
  case (Cons req reqs)
  obtain t g r where req: "req = (t, g, r)" by (cases req)
  obtain rep s1 where one: "doTranslate s t g r = (rep, s1)" by (cases "doTranslate s t g r")
  obtain reps s2 where rest: "translate_requests s1 reqs = (reps, s2)"
    by (cases "translate_requests s1 reqs")
  have unfold: "translate_requests s (req # reqs) = (rep # reps, s2)"
    using one rest by (simp add: req)
  from Cons.prems(2) req
  have nocoll: "cacheKey m t g = cacheKey m tx target \<longrightarrow> t = tx \<and> g = target"
    and others: "\<forall>(t, g, r) \<in> set reqs. cacheKey m t g = cacheKey m tx target \<longrightarrow> t = tx \<and> g = target"
    by auto
  note step = window_inv_step [OF Cons.prems(1) assms(1,2) nocoll, of r]
  from step one have inv1: "window_inv m tx target (seen @ [(t, g, r)]) s1" by simp
  from step one have q: "t = tx \<and> g = target \<longrightarrow> rep = Queued" by auto
  from Cons.IH [OF inv1 others] rest
  have inv2: "window_inv m tx target (seen @ req # reqs) s2"
    and len: "length reps = length reqs"
    and qs: "\<forall>i < length reqs. fst (reqs ! i) = tx \<and> fst (snd (reqs ! i)) = target \<longrightarrow> reps ! i = Queued"
    by (simp_all add: req)
  have "fst (translate_requests s (req # reqs)) ! i = Queued"
    if "i < length (req # reqs)" "fst ((req # reqs) ! i) = tx \<and> fst (snd ((req # reqs) ! i)) = target" for i
  proof (cases i)
    case 0
    with that q req show ?thesis unfolding unfold by simp
  next
    case (Suc j)
    with that qs show ?thesis unfolding unfold by simp
  qed
  with inv2 len show ?case unfolding unfold by simp
qed

section \<open>The groups of a flush\<close>

lemma group_by_target_targets:
  "distinct (map fst bt) \<Longrightarrow> distinct (map fst (group_by_target pend bt))"
proof (induction pend arbitrary: bt)
  case Nil
  then show ?case by simp
next
  case (Cons a pend)
  obtain key entry where a: "a = (key, entry)" by (cases a)
  show ?case
    unfolding a by (simp add: Let_def Cons.IH Cons.prems distinct_update)
qed

lemma group_by_target_origin:
  assumes "(t, its) \<in> set (group_by_target pend bt)" and "it \<in> set its"
  shows "(\<exists>its0. (t, its0) \<in> set bt \<and> it \<in> set its0)
       \<or> (\<exists>p. (it_key it, p) \<in> set pend
             \<and> (if pr_target p \<noteq> [] then pr_target p else ''en'') = t
             \<and> it_text it = pr_text p \<and> it_resolvers it = pr_resolvers p)"
  using assms
proof (induction pend arbitrary: bt)
  case Nil
  then show ?case by auto
next
  case (Cons a pend)
  obtain key entry where a: "a = (key, entry)" by (cases a)
  let ?t = "if pr_target entry \<noteq> [] then pr_target entry else ''en''"
  let ?old = "case map_of bt ?t of None \<Rightarrow> [] | Some its \<Rightarrow> its"
  let ?new = "\<lparr>it_key = key, it_text = pr_text entry, it_resolvers = pr_resolvers entry\<rparr>"
  let ?bt = "AList.update ?t (?old @ [?new]) bt"
  from Cons.prems(1) have "(t, its) \<in> set (group_by_target pend ?bt)"
    by (simp add: a Let_def)
  from Cons.IH [OF this Cons.prems(2)]
  consider (before) its0 where "(t, its0) \<in> set ?bt" "it \<in> set its0"
    | (later) p where "(it_key it, p) \<in> set pend"
        "(if pr_target p \<noteq> [] then pr_target p else ''en'') = t"
        "it_text it = pr_text p" "it_resolvers it = pr_resolvers p"
    by blast
  then show ?case
  proof cases
    case before
    from set_update_subset [OF before(1)]
    consider "(t, its0) = (?t, ?old @ [?new])" | "(t, its0) \<in> set bt" by blast
    then show ?thesis
    proof cases
      case 1
      with before(2) consider "it \<in> set ?old" | "it = ?new" by auto
      then show ?thesis
      proof cases
        case 1
        then obtain its1 where its1: "map_of bt ?t = Some its1" "it \<in> set its1"
          by (cases "map_of bt ?t") auto
        from its1(1) have "(?t, its1) \<in> set bt" by (rule map_of_SomeD)
        moreover from \<open>(t, its0) = (?t, ?old @ [?new])\<close> have "t = ?t" by simp
        ultimately have "\<exists>its0. (t, its0) \<in> set bt \<and> it \<in> set its0"
          using its1(2) by blast
        then show ?thesis by (rule disjI1)
      next
        case 2
        from \<open>(t, its0) = (?t, ?old @ [?new])\<close> have "?t = t" by simp
        with 2 have "(it_key it, entry) \<in> set (a # pend)
             \<and> (if pr_target entry \<noteq> [] then pr_target entry else ''en'') = t
             \<and> it_text it = pr_text entry \<and> it_resolvers it = pr_resolvers entry"
          by (simp add: a)
        then show ?thesis by blast
      qed
    next
      case 2
      with before(2) show ?thesis by blast
    qed
  next
    case later
    then have "(it_key it, p) \<in> set (a # pend)
             \<and> (if pr_target p \<noteq> [] then pr_target p else ''en'') = t
             \<and> it_text it = pr_text p \<and> it_resolvers it = pr_resolvers p"
      by simp
    then show ?thesis by blast
  qed
qed

lemma group_by_target_member:
  assumes "(key, p) \<in> set pend"
  shows "\<exists>t its. (t, its) \<in> set (group_by_target pend [])
           \<and> \<lparr>it_key = key, it_text = pr_text p, it_resolvers = pr_resolvers p\<rparr> \<in> set its"
proof -
  let ?mk = "\<lambda>(k, p). \<lparr>it_key = k, it_text = pr_text p, it_resolvers = pr_resolvers p\<rparr>"
  have "mset (all_items (group_by_target pend [])) = mset (map ?mk pend)"
    using group_by_target_items [of pend "[]"] by (simp add: all_items_def)
  then have "set (all_items (group_by_target pend [])) = set (map ?mk pend)"
    by (rule mset_eq_setD)
  moreover from assms have "?mk (key, p) \<in> set (map ?mk pend)" by (rule imageI [THEN set_map [THEN equalityD2, THEN subsetD]])
  ultimately have "\<lparr>it_key = key, it_text = pr_text p, it_resolvers = pr_resolvers p\<rparr>
      \<in> set (all_items (group_by_target pend []))" by simp
  then obtain g where g: "g \<in> set (group_by_target pend [])"
    "\<lparr>it_key = key, it_text = pr_text p, it_resolvers = pr_resolvers p\<rparr> \<in> set (snd g)"
    unfolding all_items_def by auto
  show ?thesis
    by (rule exI [of _ "fst g"], rule exI [of _ "snd g"]) (use g in simp)
qed

section \<open>One text, one slot\<close>

lemma count_list_map:
  "count_list (map f xs) a = length (filter (\<lambda>x. f x = a) xs)"
  by (induction xs) auto

lemma one_with_key:
  "distinct (map f xs) \<Longrightarrow> a \<in> f ` set xs \<Longrightarrow> length (filter (\<lambda>x. f x = a) xs) = 1"
proof (induction xs)
  case Nil
  then show ?case by simp
next
  case (Cons x xs)
  show ?case
  proof (cases "f x = a")
    case True
    from Cons.prems(1) have "f x \<notin> f ` set xs" by simp
    with True have "\<forall>y\<in>set xs. f y \<noteq> a" by blast
    then have "filter (\<lambda>x. f x = a) xs = []" by (simp add: filter_empty_conv)
    with True show ?thesis by simp
  next
    case False
    with Cons show ?thesis by auto
  qed
qed

lemma recheck_push:
  "\<not> has mem (it_key u) \<Longrightarrow> persisted_value pc (it_key u) = None \<Longrightarrow>
   recheck (u # us) mem pc
     = (it_text u # fst (recheck us mem pc), it_key u # fst (snd (recheck us mem pc)),
        snd (snd (recheck us mem pc)))"
  by (simp split: prod.splits)

lemma recheck_texts:
  "fst (recheck us mem pc)
     = map it_text
         (filter (\<lambda>u. map_of mem (it_key u) = None \<and> persisted_value pc (it_key u) = None) us)"
proof (induction us arbitrary: mem)
  case Nil
  then show ?case by simp
next
  case (Cons u us)
  show ?case
  proof (cases "map_of mem (it_key u)")
    case (Some a)
    then show ?thesis by (simp add: has_def Cons.IH)
  next
    case None
    show ?thesis
    proof (cases "persisted_value pc (it_key u)")
      case pn: None
      from None have "\<not> has mem (it_key u)" by (simp add: has_def)
      from recheck_push [OF this pn] None pn show ?thesis by (simp add: Cons.IH)
    next
      case (Some val)
      have "filter (\<lambda>w. map_of (AList.update (it_key u) val mem) (it_key w) = None
                       \<and> persisted_value pc (it_key w) = None) us
          = filter (\<lambda>w. map_of mem (it_key w) = None \<and> persisted_value pc (it_key w) = None) us"
        using Some by (intro filter_cong refl) (auto simp: update_conv')
      with None Some show ?thesis by (simp add: has_def Cons.IH)
    qed
  qed
qed

lemma recheck_keeps_uncached:
  "persisted_value pc k = None \<Longrightarrow> map_of (snd (snd (recheck us mem pc))) k = map_of mem k"
proof (induction us arbitrary: mem)
  case Nil
  then show ?case by simp
next
  case (Cons u us)
  show ?case
  proof (cases "has mem (it_key u)")
    case True
    with Cons show ?thesis by simp
  next
    case False
    show ?thesis
    proof (cases "persisted_value pc (it_key u)")
      case None
      from recheck_push [OF False None] Cons show ?thesis by simp
    next
      case (Some val)
      with Cons.prems have "it_key u \<noteq> k" by auto
      with False Some Cons show ?thesis by (simp add: update_conv')
    qed
  qed
qed

lemma assign_loop_other_key:
  assumes "k \<notin> it_key ` set us"
    and "assign_loop us items ti results now mem pc = (invoked, mem2, pc2)"
  shows "map_of mem2 k = map_of mem k \<and> map_of pc2 k = map_of pc k"
  using assms
proof (induction us arbitrary: mem pc invoked)
  case Nil
  then show ?case by simp
next
  case (Cons u us)
  let ?tr = "translated_for (it_key u) ti results mem"
  let ?mem1 = "if js_truthy ?tr then AList.update (it_key u) ?tr mem else mem"
  let ?pc1 = "if js_truthy ?tr
            then AList.update (it_key u) \<lparr>entry_v = ?tr, entry_t = now\<rparr> pc else pc"
  obtain inv m p where rest: "assign_loop us items ti results now ?mem1 ?pc1 = (inv, m, p)"
    by (cases "assign_loop us items ti results now ?mem1 ?pc1")
  from Cons.prems(2) assign_loop_step [OF rest] have eq: "m = mem2" "p = pc2" by simp_all
  from rest eq have rest': "assign_loop us items ti results now ?mem1 ?pc1 = (inv, mem2, pc2)"
    by simp
  from Cons.prems(1) have k: "k \<noteq> it_key u" "k \<notin> it_key ` set us" by auto
  from Cons.IH [OF k(2) rest']
  have "map_of mem2 k = map_of ?mem1 k \<and> map_of pc2 k = map_of ?pc1 k" .
  with k(1) show ?case by (simp add: update_conv')
qed

lemma assign_loop_member:
  assumes "u \<in> set us"
    and "assign_loop us items ti results now mem pc = (invoked, mem2, pc2)"
  shows "\<exists>val. set (resolve_key items (it_key u) val) \<subseteq> set invoked"
  using assms
proof (induction us arbitrary: mem pc invoked)
  case Nil
  then show ?case by simp
next
  case (Cons w us)
  let ?tr = "translated_for (it_key w) ti results mem"
  let ?mem1 = "if js_truthy ?tr then AList.update (it_key w) ?tr mem else mem"
  let ?pc1 = "if js_truthy ?tr
            then AList.update (it_key w) \<lparr>entry_v = ?tr, entry_t = now\<rparr> pc else pc"
  obtain inv m p where rest: "assign_loop us items ti results now ?mem1 ?pc1 = (inv, m, p)"
    by (cases "assign_loop us items ti results now ?mem1 ?pc1")
  from Cons.prems(2) assign_loop_step [OF rest]
  have invoked: "invoked = resolve_key items (it_key w) ?tr @ inv" and eq: "m = mem2" "p = pc2"
    by simp_all
  from rest eq have rest': "assign_loop us items ti results now ?mem1 ?pc1 = (inv, mem2, pc2)"
    by simp
  show ?case
  proof (cases "u = w")
    case True
    then have "set (resolve_key items (it_key u) ?tr) \<subseteq> set invoked"
      unfolding invoked by simp
    then show ?thesis by blast
  next
    case False
    with Cons.prems(1) have "u \<in> set us" by simp
    from Cons.IH [OF this rest'] obtain val
      where "set (resolve_key items (it_key u) val) \<subseteq> set inv" by blast
    then have "set (resolve_key items (it_key u) val) \<subseteq> set invoked"
      unfolding invoked by auto
    then show ?thesis by blast
  qed
qed

lemma resolve_key_member:
  "it \<in> set items \<Longrightarrow> r \<in> set (it_resolvers it) \<Longrightarrow>
   (r, val) \<in> set (resolve_key items (it_key it) val)"
  by (auto simp: resolve_key_def)

lemma slots_append [simp]: "slots tx target (xs @ ys) = slots tx target xs + slots tx target ys"
  by (simp add: slots_def)

lemma slots_elsewhere:
  "\<forall>c\<in>set calls. request_target c \<noteq> target \<Longrightarrow> slots tx target calls = 0"
  by (induction calls) (auto simp: slots_def)

lemma request_target_provider_request [simp]:
  "request_target (provider_request st target tt) = target"
  by (simp add: provider_request_def)

lemma request_texts_provider_request [simp]:
  "request_texts (provider_request st target tt) = tt"
  by (simp add: provider_request_def)

lemma flush_group_call_target:
  assumes "flush_group fetch now t items st = (calls, invoked, st1)" and "c \<in> set calls"
  shows "request_target c = t"
proof -
  from assms(1) obtain tt ti mem1 mem2 pc2
    where "calls = (if tt \<noteq> [] \<and> url_builds st t tt then [provider_request st t tt] else [])"
    by (rule flush_group_parts)
  with assms(2) show ?thesis by (auto split: if_splits)
qed

lemma flush_groups_call_targets:
  assumes "flush_groups fetch now groups st = (calls, invoked, st2)" and "c \<in> set calls"
  shows "request_target c \<in> fst ` set groups"
  using assms
proof (induction groups arbitrary: st calls invoked)
  case Nil
  then show ?case by simp
next
  case (Cons g groups)
  obtain t items where g: "g = (t, items)" by (cases g)
  from Cons.prems(1) [unfolded g] obtain c1 i1 st1 c2 i2
    where f: "flush_group fetch now t items st = (c1, i1, st1)"
      and rest: "flush_groups fetch now groups st1 = (c2, i2, st2)"
      and calls: "calls = c1 @ c2"
    by (rule flush_groups_parts)
  from Cons.prems(2) calls consider "c \<in> set c1" | "c \<in> set c2" by auto
  then show ?case
  proof cases
    case 1
    from flush_group_call_target [OF f 1] show ?thesis by (simp add: g)
  next
    case 2
    from Cons.IH [OF rest 2] show ?thesis by simp
  qed
qed

lemma flush_group_other_key:
  assumes "key \<notin> it_key ` set items"
    and "map_of (inMemoryCache st) key = None"
    and "persisted_value (persistentCache st) key = None"
    and "flush_group fetch now t items st = (calls, invoked, st1)"
  shows "map_of (inMemoryCache st1) key = None \<and> persisted_value (persistentCache st1) key = None"
proof -
  from assms(4) obtain tt ti mem1 mem2 pc2
    where r: "recheck (dedupe items []) (inMemoryCache st) (persistentCache st) = (tt, ti, mem1)"
      and a: "assign_loop (dedupe items []) items ti
           (if tt \<noteq> [] then provider_results st fetch t tt else []) now mem1
           (persistentCache st) = (invoked, mem2, pc2)"
      and st1: "st1 = scheduleSavePersistentCache (st\<lparr>inMemoryCache := mem2, persistentCache := pc2\<rparr>)"
    by (rule flush_group_parts)
  from recheck_keeps_uncached [OF assms(3), of "dedupe items []" "inMemoryCache st"] r assms(2)
  have m1: "map_of mem1 key = None" by simp
  from assms(1) dedupe_subset [of items "[]"] have "key \<notin> it_key ` set (dedupe items [])" by auto
  from assign_loop_other_key [OF this a] m1
  have "map_of mem2 key = None" "map_of pc2 key = map_of (persistentCache st) key" by simp_all
  with assms(3) st1 show ?thesis by (simp add: persisted_value_def)
qed

lemma url_builds_subset:
  "url_builds st target xs \<Longrightarrow> set ys \<subseteq> set xs \<Longrightarrow> url_builds st target ys"
  by (auto simp: url_builds_def list_all_iff)

lemma url_builds_settings:
  "USE_CLOUD st' = USE_CLOUD st \<Longrightarrow> GOOGLE_API_KEY st' = GOOGLE_API_KEY st \<Longrightarrow>
   url_builds st' target tt = url_builds st target tt"
  by (simp add: url_builds_def)

lemma flush_group_settings:
  assumes "flush_group fetch now t items st = (calls, invoked, st1)"
  shows "USE_CLOUD st1 = USE_CLOUD st \<and> GOOGLE_API_KEY st1 = GOOGLE_API_KEY st"
proof -
  from assms obtain tt ti mem1 mem2 pc2
    where "st1 = scheduleSavePersistentCache (st\<lparr>inMemoryCache := mem2, persistentCache := pc2\<rparr>)"
    by (rule flush_group_parts)
  then show ?thesis by simp
qed

lemma flush_group_key:
  assumes m: "map_of (inMemoryCache st) key = None"
    and d: "persisted_value (persistentCache st) key = None"
    and item: "it \<in> set items" "it_key it = key" "it_resolvers it = rs"
    and texts: "\<forall>w\<in>set items. (it_text w = tx) = (it_key w = key)"
    and run: "flush_group fetch now target items st = (calls, invoked, st1)"
  shows "slots tx target calls \<le> 1
       \<and> (\<forall>c\<in>set calls. count_list (request_texts c) tx = 1)
       \<and> (url_builds st target (map it_text items) \<longrightarrow> slots tx target calls = 1)
       \<and> (\<exists>val. \<forall>r\<in>set rs. (r, val) \<in> set invoked)"
proof -
  let ?us = "dedupe items []"
  let ?U = "\<lambda>u. map_of (inMemoryCache st) (it_key u) = None
               \<and> persisted_value (persistentCache st) (it_key u) = None"
  from run obtain tt ti mem1 mem2 pc2
    where r: "recheck ?us (inMemoryCache st) (persistentCache st) = (tt, ti, mem1)"
      and a: "assign_loop ?us items ti
           (if tt \<noteq> [] then provider_results st fetch target tt else []) now mem1
           (persistentCache st) = (invoked, mem2, pc2)"
      and calls: "calls = (if tt \<noteq> [] \<and> url_builds st target tt then [provider_request st target tt] else [])"
    by (rule flush_group_parts)
  have keys: "distinct (map it_key ?us)" "it_key ` set ?us = it_key ` set items"
    using dedupe_keys [of items "[]"] by auto
  from item keys(2) have inkeys: "key \<in> it_key ` set ?us" by auto
  have tt: "tt = map it_text (filter ?U ?us)"
    using recheck_texts [of ?us "inMemoryCache st" "persistentCache st"] r by simp
  have "filter (\<lambda>u. it_text u = tx) (filter ?U ?us) = filter (\<lambda>u. it_key u = key) ?us"
    unfolding filter_filter
  proof (rule filter_cong [OF refl])
    fix u assume "u \<in> set ?us"
    with dedupe_subset [of items "[]"] have "u \<in> set items" by auto
    with texts have "(it_text u = tx) = (it_key u = key)" by blast
    with m d show "(?U u \<and> it_text u = tx) = (it_key u = key)" by auto
  qed
  then have "count_list tt tx = length (filter (\<lambda>u. it_key u = key) ?us)"
    unfolding tt by (simp add: count_list_map)
  also have "\<dots> = 1" using keys(1) inkeys by (rule one_with_key)
  finally have one: "count_list tt tx = 1" .
  then have ne: "tt \<noteq> []" by auto
  from calls one have most: "slots tx target calls \<le> 1" by (simp add: slots_def)
  from calls one have each: "\<forall>c\<in>set calls. count_list (request_texts c) tx = 1" by simp
  have sub: "set tt \<subseteq> set (map it_text items)"
    unfolding tt using dedupe_subset [of items "[]"] by auto
  have exact: "slots tx target calls = 1" if "url_builds st target (map it_text items)"
  proof -
    from that sub have "url_builds st target tt" by (rule url_builds_subset)
    with calls ne one show ?thesis by (simp add: slots_def)
  qed
  from inkeys obtain u where u: "u \<in> set ?us" "it_key u = key" by auto
  from assign_loop_member [OF u(1) a] u(2) obtain val
    where sub: "set (resolve_key items key val) \<subseteq> set invoked" by auto
  have "(r, val) \<in> set invoked" if "r \<in> set rs" for r
    using resolve_key_member [OF item(1), of r val] item(2,3) that sub by auto
  then have "\<exists>val. \<forall>r\<in>set rs. (r, val) \<in> set invoked" by blast
  with most each exact show ?thesis by blast
qed

lemma flush_groups_key:
  assumes "distinct (map fst groups)"
    and "(target, items) \<in> set groups"
    and "\<forall>(t, its)\<in>set groups. t \<noteq> target \<longrightarrow> key \<notin> it_key ` set its"
    and "map_of (inMemoryCache st) key = None"
    and "persisted_value (persistentCache st) key = None"
    and item: "it \<in> set items" "it_key it = key" "it_resolvers it = rs"
    and texts: "\<forall>w\<in>set items. (it_text w = tx) = (it_key w = key)"
    and "flush_groups fetch now groups st = (calls, invoked, st2)"
  shows "slots tx target calls \<le> 1
       \<and> (\<forall>c\<in>set calls. request_target c = target \<longrightarrow> count_list (request_texts c) tx = 1)
       \<and> (url_builds st target (map it_text items) \<longrightarrow> slots tx target calls = 1)
       \<and> (\<exists>val. \<forall>r\<in>set rs. (r, val) \<in> set invoked)"
  using assms(1-5,10)
proof (induction groups arbitrary: st calls invoked)
  case Nil
  then show ?case by simp
next
  case (Cons g groups)
  obtain t its where g: "g = (t, its)" by (cases g)
  from Cons.prems(6) [unfolded g] obtain c1 i1 st1 c2 i2
    where f: "flush_group fetch now t its st = (c1, i1, st1)"
      and rest: "flush_groups fetch now groups st1 = (c2, i2, st2)"
      and calls: "calls = c1 @ c2" and invoked: "invoked = i1 @ i2"
    by (rule flush_groups_parts)
  from Cons.prems(1) g have fresh: "t \<notin> fst ` set groups" and dist: "distinct (map fst groups)"
    by auto
  show ?case
  proof (cases "t = target")
    case True
    with Cons.prems(2) fresh g have its: "its = items" by force
    note here = flush_group_key [OF Cons.prems(4,5) item texts f [unfolded its True]]
    note most = here [THEN conjunct1]
    note each = here [THEN conjunct2, THEN conjunct1]
    note exact = here [THEN conjunct2, THEN conjunct2, THEN conjunct1]
    note vals = here [THEN conjunct2, THEN conjunct2, THEN conjunct2]
    have away: "\<forall>c\<in>set c2. request_target c \<noteq> target"
      using flush_groups_call_targets [OF rest] fresh True by blast
    then have zero: "slots tx target c2 = 0" by (rule slots_elsewhere)
    from most zero have r1: "slots tx target calls \<le> 1" unfolding calls by simp
    have r2: "\<forall>c\<in>set calls. request_target c = target \<longrightarrow> count_list (request_texts c) tx = 1"
    proof (intro ballI impI)
      fix c assume "c \<in> set calls" and "request_target c = target"
      with away have "c \<in> set c1" unfolding calls by auto
      with each show "count_list (request_texts c) tx = 1" by simp
    qed
    from exact zero
    have r3: "url_builds st target (map it_text items) \<longrightarrow> slots tx target calls = 1"
      unfolding calls by simp
    from vals obtain val where "\<forall>r\<in>set rs. (r, val) \<in> set i1" ..
    then have "\<forall>r\<in>set rs. (r, val) \<in> set invoked" unfolding invoked by simp
    then have r4: "\<exists>val. \<forall>r\<in>set rs. (r, val) \<in> set invoked" ..
    show ?thesis by (rule conjI [OF r1 conjI [OF r2 conjI [OF r3 r4]]])
  next
    case False
    with Cons.prems(2) g have mem: "(target, items) \<in> set groups" by auto
    from Cons.prems(3) g False have notin: "key \<notin> it_key ` set its" by auto
    from Cons.prems(3) have others: "\<forall>(t, its)\<in>set groups. t \<noteq> target \<longrightarrow> key \<notin> it_key ` set its"
      by auto
    from flush_group_other_key [OF notin Cons.prems(4,5) f]
    have m1: "map_of (inMemoryCache st1) key = None"
      and d1: "persisted_value (persistentCache st1) key = None" by simp_all
    from flush_group_settings [OF f]
    have url: "url_builds st1 target (map it_text items) = url_builds st target (map it_text items)"
      by (intro url_builds_settings) simp_all
    note later = Cons.IH [OF dist mem others m1 d1 rest]
    note most = later [THEN conjunct1]
    note each = later [THEN conjunct2, THEN conjunct1]
    note exact = later [THEN conjunct2, THEN conjunct2, THEN conjunct1]
    note vals = later [THEN conjunct2, THEN conjunct2, THEN conjunct2]
    have away: "\<forall>c\<in>set c1. request_target c \<noteq> target"
      using flush_group_call_target [OF f] False by blast
    then have zero: "slots tx target c1 = 0" by (rule slots_elsewhere)
    from most zero have r1: "slots tx target calls \<le> 1" unfolding calls by simp
    have r2: "\<forall>c\<in>set calls. request_target c = target \<longrightarrow> count_list (request_texts c) tx = 1"
    proof (intro ballI impI)
      fix c assume "c \<in> set calls" and t: "request_target c = target"
      with away have "c \<in> set c2" unfolding calls by auto
      with each t show "count_list (request_texts c) tx = 1" by simp
    qed
    from exact zero url
    have r3: "url_builds st target (map it_text items) \<longrightarrow> slots tx target calls = 1"
      unfolding calls by simp
    from vals obtain val where "\<forall>r\<in>set rs. (r, val) \<in> set i2" ..
    then have "\<forall>r\<in>set rs. (r, val) \<in> set invoked" unfolding invoked by simp
    then have r4: "\<exists>val. \<forall>r\<in>set rs. (r, val) \<in> set invoked" ..
    show ?thesis by (rule conjI [OF r1 conjI [OF r2 conjI [OF r3 r4]]])
  qed
qed

lemma called_once:
  assumes "(r, val) \<in> set xs" and "count (mset (map fst xs)) r \<le> 1"
  shows "filter (\<lambda>p. fst p = r) xs = [(r, val)]"
proof -
  have "count (mset (map fst xs)) r = length (filter (\<lambda>p. fst p = r) xs)"
    by (induction xs) auto
  with assms(2) have len: "length (filter (\<lambda>p. fst p = r) xs) \<le> 1" by simp
  from assms(1) have mem: "(r, val) \<in> set (filter (\<lambda>p. fst p = r) xs)" by simp
  then obtain y ys where f: "filter (\<lambda>p. fst p = r) xs = y # ys"
    by (cases "filter (\<lambda>p. fst p = r) xs") auto
  with len have "ys = []" by simp
  with f mem show ?thesis by simp
qed

section \<open>Settings, texts and the timer during a window\<close>

lemma translate_requests_snd:
  "snd (translate_requests s ((t, g, r) # reqs))
     = snd (translate_requests (snd (doTranslate s t g r)) reqs)"
  by (simp split: prod.splits)

lemma doTranslate_api_key: "GOOGLE_API_KEY (snd (doTranslate s t g r)) = GOOGLE_API_KEY s"
  by (simp add: doTranslate_def Let_def split: option.splits)

lemma translate_requests_api_key:
  "GOOGLE_API_KEY (snd (translate_requests s reqs)) = GOOGLE_API_KEY s"
proof (induction reqs arbitrary: s)
  case Nil
  then show ?case by simp
next
  case (Cons req reqs)
  obtain t g r where req: "req = (t, g, r)" by (cases req)
  show ?case
    unfolding req translate_requests_snd Cons.IH by (rule doTranslate_api_key)
qed

lemma doTranslate_timer:
  assumes "pendingRequests s = [] \<or> pendingFlushTimer s"
  shows "pendingRequests (snd (doTranslate s t g r)) = []
       \<or> pendingFlushTimer (snd (doTranslate s t g r))"
  using assms by (simp add: doTranslate_def Let_def split: option.splits)

lemma translate_requests_timer:
  assumes "pendingRequests s = [] \<or> pendingFlushTimer s"
  shows "pendingRequests (snd (translate_requests s reqs)) = []
       \<or> pendingFlushTimer (snd (translate_requests s reqs))"
  using assms
proof (induction reqs arbitrary: s)
  case Nil
  then show ?case by simp
next
  case (Cons req reqs)
  obtain t g r where req: "req = (t, g, r)" by (cases req)
  from Cons.prems have "pendingRequests (snd (doTranslate s t g r)) = []
       \<or> pendingFlushTimer (snd (doTranslate s t g r))"
    by (rule doTranslate_timer)
  then show ?case
    unfolding req translate_requests_snd by (rule Cons.IH)
qed

lemma queueTranslationRequest_texts:
  assumes "(k, p) \<in> set (pendingRequests (queueTranslationRequest s key t g r))"
  shows "pr_text p = t \<or> pr_text p \<in> pr_text ` snd ` set (pendingRequests s)"
proof (cases "map_of (pendingRequests s) key")
  case None
  with assms
  have "(k, p) \<in> set (AList.update key \<lparr>pr_text = t, pr_target = g, pr_resolvers = [r]\<rparr>
            (pendingRequests s))"
    by (simp add: queueTranslationRequest_def)
  from set_update_subset [OF this] show ?thesis by force
next
  case (Some q)
  then have old: "(key, q) \<in> set (pendingRequests s)" by (rule map_of_SomeD)
  from assms Some
  have "(k, p) \<in> set (AList.update key (q\<lparr>pr_resolvers := pr_resolvers q @ [r]\<rparr>)
            (pendingRequests s))"
    by (simp add: queueTranslationRequest_def)
  from set_update_subset [OF this] old show ?thesis by force
qed

lemma doTranslate_texts:
  assumes "(k, p) \<in> set (pendingRequests (snd (doTranslate s t g r)))"
  shows "pr_text p = t \<or> pr_text p \<in> pr_text ` snd ` set (pendingRequests s)"
proof (cases "fst (doTranslate s t g r)")
  case (Resolved val)
  then have "pendingRequests (snd (doTranslate s t g r)) = pendingRequests s"
    by (auto simp: doTranslate_def Let_def split: option.splits if_splits)
  with assms show ?thesis by force
next
  case Queued
  then have "snd (doTranslate s t g r)
      = queueTranslationRequest s (cacheKey (USE_CLOUD s) t g) t g r"
    by (auto simp: doTranslate_def Let_def split: option.splits if_splits)
  with assms show ?thesis by (simp add: queueTranslationRequest_texts)
qed

lemma translate_requests_texts:
  assumes "(k, p) \<in> set (pendingRequests (snd (translate_requests s reqs)))"
  shows "pr_text p \<in> fst ` set reqs
       \<or> pr_text p \<in> pr_text ` snd ` set (pendingRequests s)"
  using assms
proof (induction reqs arbitrary: s)
  case Nil
  then show ?case by force
next
  case (Cons req reqs)
  obtain t g r where req: "req = (t, g, r)" by (cases req)
  let ?s1 = "snd (doTranslate s t g r)"
  from Cons.prems have "(k, p) \<in> set (pendingRequests (snd (translate_requests ?s1 reqs)))"
    unfolding req translate_requests_snd .
  from Cons.IH [OF this]
  consider "pr_text p \<in> fst ` set reqs"
    | "pr_text p \<in> pr_text ` snd ` set (pendingRequests ?s1)" by blast
  then show ?case
  proof cases
    case 1
    then show ?thesis by simp
  next
    case 2
    then obtain k' p' where p': "(k', p') \<in> set (pendingRequests ?s1)" "pr_text p = pr_text p'"
      by force
    from doTranslate_texts [OF p'(1)] p'(2) show ?thesis by (auto simp: req)
  qed
qed

lemma pendingFlushTimerFired_run:
  "pendingFlushTimerFired s fetch now
     = (if pendingRequests s = [] then ([], [], s\<lparr>pendingFlushTimer := False\<rparr>)
        else flush_groups fetch now (group_by_target (pendingRequests s) [])
               (s\<lparr>pendingFlushTimer := False, pendingRequests := []\<rparr>))"
  by (simp add: pendingFlushTimerFired_def flushPendingRequests_def)

section \<open>The claims of the specification\<close>

text \<open>
  Claim C1. Take the requests of one debounce window that starts with nothing pending,
  with the provider mode fixed, and among them at least one for a text and target whose
  key neither tier holds; every caller has a callback of its own, and no other request
  of the window collides with that key. Then every request for that text and target
  gets a pending promise and the flush timer is armed. When the timer fires, the
  outbound calls carry that text for that target in at most one slot: every call for
  that target carries the text exactly once (it may carry other texts as well), and
  there is exactly one such slot whenever the request URL can be built for the texts of
  the window (where it cannot, the call is not made). Each of those callers' callbacks
  is called exactly once, all with the same value.
\<close>

theorem identical_requests_share_one_slot:
  assumes "tx \<noteq> []" and "target \<noteq> []"
    and "pendingRequests st = []"
    and "map_of (inMemoryCache st) (cacheKey (USE_CLOUD st) tx target) = None"
    and "persisted_value (persistentCache st) (cacheKey (USE_CLOUD st) tx target) = None"
    and "callers_of tx target reqs \<noteq> []"
    and "distinct (map (\<lambda>(t, g, r). r) reqs)"
    and "\<forall>(t, g, r) \<in> set reqs.
           cacheKey (USE_CLOUD st) t g = cacheKey (USE_CLOUD st) tx target \<longrightarrow> t = tx \<and> g = target"
  shows "(\<forall>i < length reqs. fst (reqs ! i) = tx \<and> fst (snd (reqs ! i)) = target
            \<longrightarrow> fst (translate_requests st reqs) ! i = Queued)
       \<and> pendingFlushTimer (snd (translate_requests st reqs))
       \<and> slots tx target
            (fst (pendingFlushTimerFired (snd (translate_requests st reqs)) fetch now)) \<le> 1
       \<and> (\<forall>c \<in> set (fst (pendingFlushTimerFired (snd (translate_requests st reqs)) fetch now)).
             request_target c = target \<longrightarrow> count_list (request_texts c) tx = 1)
       \<and> (url_builds st target (map fst reqs)
            \<longrightarrow> slots tx target
                  (fst (pendingFlushTimerFired (snd (translate_requests st reqs)) fetch now)) = 1)
       \<and> (\<exists>val. \<forall>r \<in> set (callers_of tx target reqs).
             filter (\<lambda>p. fst p = r)
               (fst (snd (pendingFlushTimerFired (snd (translate_requests st reqs)) fetch now)))
             = [(r, val)])"
proof -
  let ?m = "USE_CLOUD st"
  let ?key = "cacheKey ?m tx target"
  let ?rs = "callers_of tx target reqs"
  let ?s = "snd (translate_requests st reqs)"
  let ?pend = "pendingRequests ?s"
  let ?entry = "\<lparr>pr_text = tx, pr_target = target, pr_resolvers = ?rs\<rparr>"
  let ?item = "\<lparr>it_key = ?key, it_text = tx, it_resolvers = ?rs\<rparr>"
  have inv0: "window_inv ?m tx target [] st"
    using assms(3,4,5) by (simp add: window_inv_def callers_of_def registered_def)
  note window = translate_requests_inv [OF assms(1,2) inv0 assms(8)]
  from window have inv: "window_inv ?m tx target reqs ?s" by simp
  from window have queued: "\<forall>i < length reqs. fst (reqs ! i) = tx \<and> fst (snd (reqs ! i)) = target
            \<longrightarrow> fst (translate_requests st reqs) ! i = Queued" by blast
  from inv assms(6) have m: "map_of (inMemoryCache ?s) ?key = None"
    and d: "persisted_value (persistentCache ?s) ?key = None"
    and dist: "distinct (map fst ?pend)"
    and wf: "\<forall>(k, p) \<in> set ?pend. k = cacheKey ?m (pr_text p) (pr_target p) \<and> pr_target p \<noteq> []"
    and entry: "map_of ?pend ?key = Some ?entry"
    and sub: "mset (registered ?pend) \<subseteq># mset (map (\<lambda>(t, g, r). r) reqs)"
    by (simp_all add: window_inv_def)
  from entry have inpend: "(?key, ?entry) \<in> set ?pend" by (rule map_of_SomeD)
  have only: "p = ?entry" if "(?key, p) \<in> set ?pend" for p
    using that entry dist by simp
  let ?groups = "group_by_target ?pend []"
  let ?fired = "?s\<lparr>pendingFlushTimer := False\<rparr>"
  let ?idle = "?s\<lparr>pendingFlushTimer := False, pendingRequests := []\<rparr>"
  have origin: "\<exists>p. (it_key w, p) \<in> set ?pend
             \<and> (if pr_target p \<noteq> [] then pr_target p else ''en'') = t
             \<and> it_text w = pr_text p \<and> it_resolvers w = pr_resolvers p"
    if "(t, its) \<in> set ?groups" "w \<in> set its" for t its w
    using group_by_target_origin [OF that] by simp
  from group_by_target_member [OF inpend] obtain t0 items
    where grp0: "(t0, items) \<in> set ?groups" and item: "?item \<in> set items" by auto
  from origin [OF grp0 item] obtain p0 where "(?key, p0) \<in> set ?pend"
    "(if pr_target p0 \<noteq> [] then pr_target p0 else ''en'') = t0" by auto
  with only [of p0] assms(2) have "t0 = target" by simp
  with grp0 have grp: "(target, items) \<in> set ?groups" by simp
  have targets: "distinct (map fst ?groups)"
    by (rule group_by_target_targets) simp
  have texts: "\<forall>w\<in>set items. (it_text w = tx) = (it_key w = ?key)"
  proof
    fix w assume "w \<in> set items"
    from origin [OF grp this] obtain p where p: "(it_key w, p) \<in> set ?pend"
      "(if pr_target p \<noteq> [] then pr_target p else ''en'') = target" "it_text w = pr_text p"
      by auto
    from wf p(1) have k: "it_key w = cacheKey ?m (pr_text p) (pr_target p)" "pr_target p \<noteq> []"
      by auto
    with p(2) have tg: "pr_target p = target" by simp
    show "(it_text w = tx) = (it_key w = ?key)"
    proof
      assume "it_text w = tx"
      with k(1) tg p(3) show "it_key w = ?key" by simp
    next
      assume "it_key w = ?key"
      with p(1) only [of p] p(3) show "it_text w = tx" by simp
    qed
  qed
  have others: "\<forall>(t, its)\<in>set ?groups. t \<noteq> target \<longrightarrow> ?key \<notin> it_key ` set its"
  proof (intro ballI, clarify)
    fix t its w
    assume g: "(t, its) \<in> set ?groups" and ne: "t \<noteq> target" and w: "w \<in> set its"
      and k: "?key = it_key w"
    from origin [OF g w] obtain p where p: "(it_key w, p) \<in> set ?pend"
      "(if pr_target p \<noteq> [] then pr_target p else ''en'') = t" by auto
    with k only [of p] assms(2) have "t = target" by simp
    with ne show False by simp
  qed
  from inpend have nonempty: "?pend \<noteq> []" by auto
  from translate_requests_timer [of st reqs] assms(3) nonempty
  have armed: "pendingFlushTimer ?s" by simp
  obtain calls invoked st2 where run: "flush_groups fetch now ?groups ?idle = (calls, invoked, st2)"
    by (cases "flush_groups fetch now ?groups ?idle")
  from nonempty have "pendingFlushTimerFired ?s fetch now = flush_groups fetch now ?groups ?idle"
    by (simp add: pendingFlushTimerFired_run)
  with run have fired: "pendingFlushTimerFired ?s fetch now = (calls, invoked, st2)"
    by (simp only:)
  then have flush: "flushPendingRequests ?fired fetch now = (calls, invoked, st2)"
    by (simp only: pendingFlushTimerFired_def)
  have m0: "map_of (inMemoryCache ?idle) ?key = None" using m by simp
  have d0: "persisted_value (persistentCache ?idle) ?key = None" using d by simp
  have key: "it_key ?item = ?key" and rsv: "it_resolvers ?item = ?rs" by simp_all
  note group = flush_groups_key [OF targets grp others m0 d0 item key rsv texts run]
  note most = group [THEN conjunct1]
  note each = group [THEN conjunct2, THEN conjunct1]
  note exact = group [THEN conjunct2, THEN conjunct2, THEN conjunct1]
  note vals = group [THEN conjunct2, THEN conjunct2, THEN conjunct2]
  have one: "slots tx target calls = 1" if builds: "url_builds st target (map fst reqs)"
  proof -
    have "set (map it_text items) \<subseteq> set (map fst reqs)"
    proof
      fix x assume "x \<in> set (map it_text items)"
      then obtain w where w: "w \<in> set items" "x = it_text w" by auto
      from origin [OF grp w(1)] obtain p where p: "(it_key w, p) \<in> set ?pend"
        "it_text w = pr_text p" by auto
      from translate_requests_texts [OF p(1)] assms(3) have "pr_text p \<in> fst ` set reqs"
        by simp
      with w(2) p(2) show "x \<in> set (map fst reqs)" by simp
    qed
    with builds have "url_builds st target (map it_text items)" by (rule url_builds_subset)
    moreover have "url_builds ?idle target (map it_text items)
        = url_builds st target (map it_text items)"
    proof (rule url_builds_settings)
      from inv show "USE_CLOUD ?idle = USE_CLOUD st" by (simp add: window_inv_def)
      show "GOOGLE_API_KEY ?idle = GOOGLE_API_KEY st" by (simp add: translate_requests_api_key)
    qed
    ultimately show ?thesis using exact by simp
  qed
  from vals obtain val where val: "\<forall>r\<in>set ?rs. (r, val) \<in> set invoked" by blast
  have atmost: "count (mset (map fst invoked)) r \<le> 1" for r
  proof -
    from flushPendingRequests_callers [of ?fired fetch now] flush
    have "mset (map fst invoked) = mset (registered ?pend)" by simp
    with sub have "count (mset (map fst invoked)) r \<le> count (mset (map (\<lambda>(t, g, r). r) reqs)) r"
      by (simp add: mset_subset_eq_count)
    also from assms(7) have "\<dots> \<le> 1" by (simp add: distinct_count_atmost_1)
    finally show ?thesis .
  qed
  have "\<forall>r\<in>set ?rs. filter (\<lambda>p. fst p = r) invoked = [(r, val)]"
    using val atmost by (auto intro: called_once)
  then have same: "\<exists>val. \<forall>r \<in> set ?rs. filter (\<lambda>p. fst p = r) invoked = [(r, val)]" by blast
  from one have exact': "url_builds st target (map fst reqs) \<longrightarrow> slots tx target calls = 1"
    by simp
  show ?thesis
    unfolding fired fst_conv snd_conv
    by (rule conjI [OF queued conjI [OF armed conjI [OF most conjI [OF each conjI [OF exact' same]]]]])
qed

theorem identical_requests_share_one_slot_witness:
  "''shalom'' \<noteq> [] \<and> ''en'' \<noteq> [] \<and> pendingRequests initial_state = []
   \<and> map_of (inMemoryCache initial_state) (cacheKey (USE_CLOUD initial_state) ''shalom'' ''en'') = None
   \<and> persisted_value (persistentCache initial_state)
        (cacheKey (USE_CLOUD initial_state) ''shalom'' ''en'') = None
   \<and> callers_of ''shalom'' ''en'' [(''shalom'', ''en'', 1), (''x'', ''en'', 2), (''shalom'', ''en'', 3)]
       = [1, 3]
   \<and> distinct (map (\<lambda>(t, g, r). r) [(''shalom'', ''en'', 1 :: nat), (''x'', ''en'', 2), (''shalom'', ''en'', 3)])
   \<and> fst (translate_requests initial_state
        [(''shalom'', ''en'', 1), (''x'', ''en'', 2), (''shalom'', ''en'', 3)])
       = [Queued, Queued, Queued]
   \<and> pendingFlushTimer (snd (translate_requests initial_state
        [(''shalom'', ''en'', 1), (''x'', ''en'', 2), (''shalom'', ''en'', 3)]))
   \<and> url_builds initial_state ''en'' (map fst [(''shalom'', ''en'', 1 :: nat), (''x'', ''en'', 2), (''shalom'', ''en'', 3)])
   \<and> fst (pendingFlushTimerFired (snd (translate_requests initial_state
          [(''shalom'', ''en'', 1), (''x'', ''en'', 2), (''shalom'', ''en'', 3)]))
        (\<lambda>req. Response True (Some (JArr [JArr
           [JArr [JArr [JStr ''hello'', JNull]], JArr [JArr [JStr ''ex'', JNull]]]]))) 5)
       = [PublicRequest ''en'' [''shalom'', ''x'']]
   \<and> slots ''shalom'' ''en'' [PublicRequest ''en'' [''shalom'', ''x'']] = 1
   \<and> fst (snd (pendingFlushTimerFired (snd (translate_requests initial_state
          [(''shalom'', ''en'', 1), (''x'', ''en'', 2), (''shalom'', ''en'', 3)]))
        (\<lambda>req. Response True (Some (JArr [JArr
           [JArr [JArr [JStr ''hello'', JNull]], JArr [JArr [JStr ''ex'', JNull]]]]))) 5))
       = [(1, JStr ''hello''), (3, JStr ''hello''), (2, JStr ''ex'')]
   \<and> lone_surrogate [CHR 0xED, CHR 0xA0, CHR 0x80]
   \<and> fst (translate_requests initial_state
        [([CHR 0xED, CHR 0xA0, CHR 0x80], ''en'', 1), ([CHR 0xED, CHR 0xA0, CHR 0x80], ''en'', 2)])
       = [Queued, Queued]
   \<and> fst (pendingFlushTimerFired (snd (translate_requests initial_state
          [([CHR 0xED, CHR 0xA0, CHR 0x80], ''en'', 1), ([CHR 0xED, CHR 0xA0, CHR 0x80], ''en'', 2)]))
        (\<lambda>req. Response True (Some (JArr [JArr [JArr [JArr [JStr ''hello'', JNull]]]]))) 5)
       = []
   \<and> fst (snd (pendingFlushTimerFired (snd (translate_requests initial_state
          [([CHR 0xED, CHR 0xA0, CHR 0x80], ''en'', 1), ([CHR 0xED, CHR 0xA0, CHR 0x80], ''en'', 2)]))
        (\<lambda>req. Response True (Some (JArr [JArr [JArr [JArr [JStr ''hello'', JNull]]]]))) 5))
       = [(1, JStr []), (2, JStr [])]"
  using identical_requests_share_one_slot
    [of "''shalom''" "''en''" initial_state
        "[(''shalom'', ''en'', 1), (''x'', ''en'', 2), (''shalom'', ''en'', 3)]"
        "\<lambda>req. Response True (Some (JArr [JArr
           [JArr [JArr [JStr ''hello'', JNull]], JArr [JArr [JStr ''ex'', JNull]]]]))" 5]
    identical_requests_share_one_slot
    [of "[CHR 0xED, CHR 0xA0, CHR 0x80]" "''en''" initial_state
        "[([CHR 0xED, CHR 0xA0, CHR 0x80], ''en'', 1), ([CHR 0xED, CHR 0xA0, CHR 0x80], ''en'', 2)]"
        "\<lambda>req. Response True (Some (JArr [JArr [JArr [JArr [JStr ''hello'', JNull]]]]))" 5]
  by (simp add: run_defs callers_of_def slots_def)



text \<open>
  Claim C3, as the code has it. The adapter step always yields a list, never an error.
  The list is empty when the request URL cannot be built, when the fetch is rejected,
  when the status is not a success and when the body does not parse; a body that parses
  gives what its variant reads from it. A list that is not empty comes only from a body
  of the expected top-level shape whose elements can be read. The cloud variant yields
  exactly one result per element of the body's translations array when none of them is
  \<^verbatim>\<open>null\<close>, each the element's translated text or the empty string, however many texts
  were sent: a short response gives a shorter list, not an empty one. The public variant,
  when the number of per-input arrays equals the number of texts sent and each of them is
  an array without a \<^verbatim>\<open>null\<close> segment, yields exactly one result per text, each joined
  from that input's own segments; with a per-input element that is not such an array the
  reading throws and the list is empty. An item with no result at its position, and no
  cached value, resolves to the empty string.
\<close>

theorem provider_results_by_shape:
  "(\<not> url_builds st target tt
      \<or> fetch (provider_request st target tt) = FetchRejects
      \<or> (\<exists>body. fetch (provider_request st target tt) = Response False body)
      \<or> fetch (provider_request st target tt) = Response True None
    \<longrightarrow> provider_results st fetch target tt = [])
   \<and> (url_builds st target tt \<and> fetch (provider_request st target tt) = Response True (Some data)
    \<longrightarrow> provider_results st fetch target tt
          = (if USE_CLOUD st \<and> GOOGLE_API_KEY st \<noteq> [] then caught (cloud_results data)
             else caught (public_results data (length tt))))
   \<and> (caught (cloud_results cdata) \<noteq> []
    \<longrightarrow> (\<exists>d ts. js_prop cdata ''data'' = Some d \<and> js_prop d ''translations'' = Some (JArr ts)
           \<and> JNull \<notin> set ts))
   \<and> (js_prop cdata ''data'' = Some d \<and> js_prop d ''translations'' = Some (JArr ts)
       \<and> JNull \<notin> set ts
    \<longrightarrow> length (caught (cloud_results cdata)) = length ts
        \<and> (\<forall>i < length ts.
              translatedText_or_empty (ts ! i) = Inr (caught (cloud_results cdata) ! i)))
   \<and> (caught (public_results pdata n) \<noteq> [] \<longrightarrow> (\<exists>inputs rest. pdata = JArr (JArr inputs # rest)))
   \<and> (pdata = JArr (JArr inputs # rest) \<and> isArray (first inputs) \<and> length inputs = n
       \<and> (\<forall>seg \<in> set inputs. \<exists>ps. seg = JArr ps \<and> JNull \<notin> set ps)
    \<longrightarrow> length (caught (public_results pdata n)) = n
        \<and> (\<forall>i < n. segment_text (inputs ! i) = Inr (caught (public_results pdata n) ! i)))
   \<and> (pdata = JArr (JArr inputs # rest) \<and> isArray (first inputs) \<and> length inputs = n
       \<and> seg \<in> set inputs \<and> (\<forall>ps. seg = JArr ps \<longrightarrow> JNull \<in> set ps)
    \<longrightarrow> caught (public_results pdata n) = [])
   \<and> (indexOf ti key = Some idx \<and> length results \<le> idx \<and> map_of mem key = None
    \<longrightarrow> translated_for key ti results mem = JStr [])"
proof -
  have failed: "\<not> url_builds st target tt
      \<or> fetch (provider_request st target tt) = FetchRejects
      \<or> (\<exists>body. fetch (provider_request st target tt) = Response False body)
      \<or> fetch (provider_request st target tt) = Response True None
    \<longrightarrow> provider_results st fetch target tt = []"
    by (auto simp: provider_results_def)
  have parsed: "url_builds st target tt
      \<and> fetch (provider_request st target tt) = Response True (Some data)
    \<longrightarrow> provider_results st fetch target tt
          = (if USE_CLOUD st \<and> GOOGLE_API_KEY st \<noteq> [] then caught (cloud_results data)
             else caught (public_results data (length tt)))"
    by (simp add: provider_results_def)
  have cloud_only: "caught (cloud_results cdata) \<noteq> []
    \<longrightarrow> (\<exists>d ts. js_prop cdata ''data'' = Some d \<and> js_prop d ''translations'' = Some (JArr ts)
           \<and> JNull \<notin> set ts)"
  proof
    assume ne: "caught (cloud_results cdata) \<noteq> []"
    from cloud_results_shape [OF ne] obtain d ts
      where s: "js_prop cdata ''data'' = Some d" "js_prop d ''translations'' = Some (JArr ts)"
      by blast
    from cloud_results_no_null [OF ne s] s
    show "\<exists>d ts. js_prop cdata ''data'' = Some d \<and> js_prop d ''translations'' = Some (JArr ts)
           \<and> JNull \<notin> set ts" by blast
  qed
  have cloud_each: "js_prop cdata ''data'' = Some d \<and> js_prop d ''translations'' = Some (JArr ts)
       \<and> JNull \<notin> set ts
    \<longrightarrow> length (caught (cloud_results cdata)) = length ts
        \<and> (\<forall>i < length ts.
              translatedText_or_empty (ts ! i) = Inr (caught (cloud_results cdata) ! i))"
    using cloud_results_each [of cdata d ts] by blast
  have public_only: "caught (public_results pdata n) \<noteq> []
    \<longrightarrow> (\<exists>inputs rest. pdata = JArr (JArr inputs # rest))"
    using public_results_nested [of pdata n] by blast
  have public_each: "pdata = JArr (JArr inputs # rest) \<and> isArray (first inputs) \<and> length inputs = n
       \<and> (\<forall>seg \<in> set inputs. \<exists>ps. seg = JArr ps \<and> JNull \<notin> set ps)
    \<longrightarrow> length (caught (public_results pdata n)) = n
        \<and> (\<forall>i < n. segment_text (inputs ! i) = Inr (caught (public_results pdata n) ! i))"
    using public_results_each [of pdata inputs rest n] by blast
  have public_throws: "pdata = JArr (JArr inputs # rest) \<and> isArray (first inputs) \<and> length inputs = n
       \<and> seg \<in> set inputs \<and> (\<forall>ps. seg = JArr ps \<longrightarrow> JNull \<in> set ps)
    \<longrightarrow> caught (public_results pdata n) = []"
    using public_results_throws [of pdata inputs rest n seg] by blast
  have fallback: "indexOf ti key = Some idx \<and> length results \<le> idx \<and> map_of mem key = None
    \<longrightarrow> translated_for key ti results mem = JStr []"
    by (simp add: translated_for_def)
  show ?thesis
    by (rule conjI [OF failed conjI [OF parsed conjI [OF cloud_only conjI [OF cloud_each
          conjI [OF public_only conjI [OF public_each conjI [OF public_throws fallback]]]]]]])
qed

theorem provider_results_by_shape_witness:
  "provider_results initial_state (\<lambda>req. Response False None) ''en'' [''a''] = []
   \<and> lone_surrogate [CHR 0xED, CHR 0xA0, CHR 0x80]
   \<and> provider_results initial_state
        (\<lambda>req. Response True (Some (JArr [JArr [JArr [JArr [JStr ''A'', JNull]]]])))
        ''en'' [[CHR 0xED, CHR 0xA0, CHR 0x80]] = []
   \<and> provider_results initial_state
        (\<lambda>req. Response True (Some (JArr [JArr [JArr [JArr [JStr ''A'', JNull]]]])))
        ''en'' [''a''] = [JStr ''A'']
   \<and> caught (cloud_results
        (JObj [(''data'', JObj [(''translations'',
           JArr [JObj [(''translatedText'', JStr ''x'')], JObj []])])]))
       = [JStr ''x'', JStr []]
   \<and> caught (cloud_results
        (JObj [(''data'', JObj [(''translations'',
           JArr [JObj [(''translatedText'', JStr ''x'')], JNull])])]))
       = []
   \<and> caught (public_results
        (JArr [JArr [JArr [JArr [JStr ''A'', JNull], JArr [JStr ''a'', JNull]],
                     JArr [JArr [JStr ''B'', JNull]]]]) 2)
       = [JStr ''Aa'', JStr ''B'']
   \<and> caught (public_results
        (JArr [JArr [JArr [JStr ''hello'', JStr ''shalom'', JNull, JNull, JNum 10]],
               JNull, JStr ''iw'']) 1)
       = []
   \<and> indexOf [''k1'', ''k2''] ''k2'' = Some 1
   \<and> length [JStr ''x''] \<le> (1 :: nat)
   \<and> translated_for ''k2'' [''k1'', ''k2''] [JStr ''x''] [] = JStr []"
  using provider_results_by_shape
    [where fetch = "\<lambda>req. Response False None" and st = initial_state and target = "''en''"
       and tt = "[''a'']"
       and cdata = "JObj [(''data'', JObj [(''translations'',
           JArr [JObj [(''translatedText'', JStr ''x'')], JObj []])])]"
       and d = "JObj [(''translations'', JArr [JObj [(''translatedText'', JStr ''x'')], JObj []])]"
       and ts = "[JObj [(''translatedText'', JStr ''x'')], JObj []]"
       and pdata = "JArr [JArr [JArr [JArr [JStr ''A'', JNull], JArr [JStr ''a'', JNull]],
                     JArr [JArr [JStr ''B'', JNull]]]]"
       and inputs = "[JArr [JArr [JStr ''A'', JNull], JArr [JStr ''a'', JNull]],
                     JArr [JArr [JStr ''B'', JNull]]]"
       and rest = "[]" and n = 2
       and ti = "[''k1'', ''k2'']" and key = "''k2''" and idx = 1 and results = "[JStr ''x'']"
       and mem = "[]"]
    provider_results_by_shape
    [where fetch = "\<lambda>req. Response True (Some (JArr [JArr [JArr [JArr [JStr ''A'', JNull]]]]))"
       and st = initial_state and target = "''en''" and tt = "[''a'']"
       and data = "JArr [JArr [JArr [JArr [JStr ''A'', JNull]]]]"
       and pdata = "JArr [JArr [JArr [JStr ''hello'', JStr ''shalom'', JNull, JNull, JNum 10]],
               JNull, JStr ''iw'']"
       and inputs = "[JArr [JStr ''hello'', JStr ''shalom'', JNull, JNull, JNum 10]]"
       and rest = "[JNull, JStr ''iw'']" and n = 1
       and seg = "JArr [JStr ''hello'', JStr ''shalom'', JNull, JNull, JNum 10]"]
  by (simp add: run_defs)

text \<open>
  The claim as stated fails on a short response. The cloud variant, sent two texts and
  answered with one translation, yields that one translation, not the empty list. The
  public variant, sent three texts and answered with two per-input arrays, yields one
  element joined from both, which the flush then hands to the first caller and caches
  for the first text, while the other two callers get the empty string.
\<close>

theorem short_response_not_empty:
  "provider_results (initial_state\<lparr>USE_CLOUD := True, GOOGLE_API_KEY := ''key''\<rparr>)
      (\<lambda>req. Response True (Some
         (JObj [(''data'', JObj [(''translations'', JArr [JObj [(''translatedText'', JStr ''x'')]])])])))
      ''en'' [''a'', ''b'']
     = [JStr ''x'']
   \<and> provider_results initial_state
      (\<lambda>req. Response True (Some
         (JArr [JArr [JArr [JArr [JStr ''A'', JNull]], JArr [JArr [JStr ''B'', JNull]]]])))
      ''en'' [''a'', ''b'', ''c'']
     = [JStr ''A,B,'']
   \<and> fst (snd (flushPendingRequests
        (snd (doTranslate (snd (doTranslate (snd (doTranslate initial_state
           ''a'' ''en'' 1)) ''b'' ''en'' 2)) ''c'' ''en'' 3))
        (\<lambda>req. Response True (Some
           (JArr [JArr [JArr [JArr [JStr ''A'', JNull]], JArr [JArr [JStr ''B'', JNull]]]])))
        5))
     = [(1, JStr ''A,B,''), (2, JStr []), (3, JStr [])]"
  by (simp add: run_defs)

text \<open>
  Claim C4, as the code has it. For a key the fast tier does not hold, \<open>doTranslate\<close>
  answers from the durable mirror exactly when the mirror has an entry for the key whose
  value is not empty, and it then promotes that value into the fast tier; otherwise the
  request is queued. The lookup reads neither the clock nor the TTL: the reply is the
  same under every TTL setting and whatever time stamps the entries carry.
\<close>

theorem lookup_promotes_durable_entry:
  "(tx \<noteq> [] \<and> target \<noteq> [] \<and> map_of (inMemoryCache st) (cacheKey (USE_CLOUD st) tx target) = None
    \<longrightarrow> (case persisted_value (persistentCache st) (cacheKey (USE_CLOUD st) tx target) of
           Some val \<Rightarrow>
             doTranslate st tx target r
               = (Resolved val,
                  st\<lparr>inMemoryCache :=
                       AList.update (cacheKey (USE_CLOUD st) tx target) val (inMemoryCache st)\<rparr>)
         | None \<Rightarrow> fst (doTranslate st tx target r) = Queued))
   \<and> fst (doTranslate
            (st\<lparr>CACHE_TTL_DAYS := ttlDays,
                persistentCache := map (\<lambda>(k, e). (k, e\<lparr>entry_t := ts\<rparr>)) (persistentCache st)\<rparr>)
            tx target r)
       = fst (doTranslate st tx target r)"
proof (intro conjI impI)
  assume "tx \<noteq> [] \<and> target \<noteq> [] \<and> map_of (inMemoryCache st) (cacheKey (USE_CLOUD st) tx target) = None"
  then show "case persisted_value (persistentCache st) (cacheKey (USE_CLOUD st) tx target) of
           Some val \<Rightarrow>
             doTranslate st tx target r
               = (Resolved val,
                  st\<lparr>inMemoryCache :=
                       AList.update (cacheKey (USE_CLOUD st) tx target) val (inMemoryCache st)\<rparr>)
         | None \<Rightarrow> fst (doTranslate st tx target r) = Queued"
    by (simp add: doTranslate_def Let_def split: option.splits)
next
  have "persisted_value (map (\<lambda>(k, e). (k, e\<lparr>entry_t := ts\<rparr>)) (persistentCache st)) key
      = persisted_value (persistentCache st) key" for key
    by (simp add: persisted_value_def map_of_map split: option.splits)
  then show "fst (doTranslate
            (st\<lparr>CACHE_TTL_DAYS := ttlDays,
                persistentCache := map (\<lambda>(k, e). (k, e\<lparr>entry_t := ts\<rparr>)) (persistentCache st)\<rparr>)
            tx target r)
       = fst (doTranslate st tx target r)"
    by (simp add: doTranslate_def Let_def split: option.splits)
qed

theorem lookup_promotes_durable_entry_witness:
  "''a'' \<noteq> [] \<and> ''en'' \<noteq> []
   \<and> map_of (inMemoryCache
        (initial_state\<lparr>persistentCache := [(''public|a||en'', \<lparr>entry_v = JStr ''x'', entry_t = 5\<rparr>)]\<rparr>))
        (cacheKey False ''a'' ''en'') = None
   \<and> persisted_value [(''public|a||en'', \<lparr>entry_v = JStr ''x'', entry_t = 5\<rparr>)]
        (cacheKey False ''a'' ''en'') = Some (JStr ''x'')
   \<and> doTranslate
        (initial_state\<lparr>persistentCache := [(''public|a||en'', \<lparr>entry_v = JStr ''x'', entry_t = 5\<rparr>)]\<rparr>)
        ''a'' ''en'' 7
       = (Resolved (JStr ''x''),
          initial_state\<lparr>persistentCache := [(''public|a||en'', \<lparr>entry_v = JStr ''x'', entry_t = 5\<rparr>)],
             inMemoryCache := [(''public|a||en'', JStr ''x'')]\<rparr>)"
  using lookup_promotes_durable_entry
    [of "''a''" "''en''"
        "initial_state\<lparr>persistentCache := [(''public|a||en'', \<lparr>entry_v = JStr ''x'', entry_t = 5\<rparr>)]\<rparr>"
        7 30 5]
  by (simp add: run_defs)

text \<open>
  The claim as stated fails: with a TTL of 30 days, an entry of the durable mirror
  stamped at time 1 is expired at time 2592000002 and at every later time, the fast
  tier does not hold its key, and \<open>doTranslate\<close> still returns its value and promotes it.
\<close>

theorem expired_entry_still_promoted:
  "map_of (inMemoryCache
      (initial_state\<lparr>persistentCache := [(''public|a||en'', \<lparr>entry_v = JStr ''x'', entry_t = 1\<rparr>)]\<rparr>))
      (cacheKey False ''a'' ''en'') = None
   \<and> map_of (persistentCache
      (initial_state\<lparr>persistentCache := [(''public|a||en'', \<lparr>entry_v = JStr ''x'', entry_t = 1\<rparr>)]\<rparr>))
      (cacheKey False ''a'' ''en'') = Some \<lparr>entry_v = JStr ''x'', entry_t = 1\<rparr>
   \<and> isExpired 2592000002 1
        (CACHE_TTL_DAYS
          (initial_state\<lparr>persistentCache := [(''public|a||en'', \<lparr>entry_v = JStr ''x'', entry_t = 1\<rparr>)]\<rparr>))
   \<and> doTranslate
        (initial_state\<lparr>persistentCache := [(''public|a||en'', \<lparr>entry_v = JStr ''x'', entry_t = 1\<rparr>)]\<rparr>)
        ''a'' ''en'' 7
       = (Resolved (JStr ''x''),
          initial_state\<lparr>persistentCache := [(''public|a||en'', \<lparr>entry_v = JStr ''x'', entry_t = 1\<rparr>)],
             inMemoryCache := [(''public|a||en'', JStr ''x'')]\<rparr>)"
  by (simp add: run_defs isExpired_def)

text \<open>
  Claim C5, as the code has it. The time stamp the expiry test reads is the entry's own
  stamp when it has one other than 0, and the current time otherwise. So an entry with a
  stamp other than 0 is dropped exactly when the TTL is positive and its age exceeds
  \<open>ttlDays * 86400000\<close>, on load and on purge; a legacy string, an entry without a stamp
  and an entry stamped 0 are kept whatever their age (load stamps them with the current
  time). With a TTL of zero or less, load keeps every entry it accepts and purge removes
  nothing.
\<close>

theorem expired_iff_ttl_exceeded:
  "(distinct (map fst (translationCache r))
      \<and> map_of (translationCache r) k = Some (StoredObject (Some val) (Some t))
      \<and> js_truthy val \<and> t \<noteq> 0
    \<longrightarrow> (let st' = loadSettingsAndCache st (Some r) now
         in (map_of (persistentCache st') k = None) = isExpired now t (CACHE_TTL_DAYS st')
          \<and> (map_of (inMemoryCache st') k = None) = isExpired now t (CACHE_TTL_DAYS st')
          \<and> (\<not> isExpired now t (CACHE_TTL_DAYS st')
              \<longrightarrow> map_of (persistentCache st') k = Some \<lparr>entry_v = val, entry_t = t\<rparr>
                  \<and> map_of (inMemoryCache st') k = Some val)))
   \<and> (distinct (map fst (translationCache r)) \<and> map_of (translationCache r) k = Some entry
      \<and> (entry = StoredString s \<and> s \<noteq> [] \<and> val = JStr s
          \<or> entry = StoredObject (Some val) None \<and> js_truthy val
          \<or> entry = StoredObject (Some val) (Some 0) \<and> js_truthy val)
    \<longrightarrow> (let st' = loadSettingsAndCache st (Some r) now
         in map_of (persistentCache st') k = Some \<lparr>entry_v = val, entry_t = now\<rparr>
          \<and> map_of (inMemoryCache st') k = Some val))
   \<and> (map_of (persistentCache st) k = Some e \<and> entry_t e \<noteq> 0
    \<longrightarrow> (map_of (persistentCache (fst (purgeExpired st now writeOk))) k = None)
          = isExpired now (entry_t e) (CACHE_TTL_DAYS st)
        \<and> (\<not> isExpired now (entry_t e) (CACHE_TTL_DAYS st)
            \<longrightarrow> map_of (persistentCache (fst (purgeExpired st now writeOk))) k = Some e))
   \<and> (map_of (persistentCache st) k = Some e \<and> entry_t e = 0
    \<longrightarrow> map_of (persistentCache (fst (purgeExpired st now writeOk))) k = Some e)
   \<and> (CACHE_TTL_DAYS st \<le> 0
    \<longrightarrow> purgeExpired st now True = (st, persistentCache st, Inr 0))"
proof -
  define ttl where "ttl = (case cacheTTLDays r of Some n \<Rightarrow> n | None \<Rightarrow> CACHE_TTL_DAYS st)"
  obtain pc mem where l: "load_loop (translationCache r) now ttl [] [] = (pc, mem)"
    by (cases "load_loop (translationCache r) now ttl [] []")
  have st': "persistentCache (loadSettingsAndCache st (Some r) now) = pc"
    "inMemoryCache (loadSettingsAndCache st (Some r) now) = mem"
    "CACHE_TTL_DAYS (loadSettingsAndCache st (Some r) now) = ttl"
    using l by (simp_all add: loadSettingsAndCache_def Let_def ttl_def)
  have loaded: "map_of pc k = (if isExpired now ts ttl then None else Some \<lparr>entry_v = v, entry_t = ts\<rparr>)
        \<and> map_of mem k = (if isExpired now ts ttl then None else Some v)"
    if "distinct (map fst (translationCache r))" "map_of (translationCache r) k = Some x"
      "decode_entry x now = Some (v, ts)" for x v ts
    using load_loop_tiers [OF that(1), of now ttl "[]" "[]" k] that(2,3) l by simp
  have fresh: "\<not> isExpired now now ttl" by (simp add: isExpired_def)
  have stamped: "distinct (map fst (translationCache r))
      \<and> map_of (translationCache r) k = Some (StoredObject (Some val) (Some t))
      \<and> js_truthy val \<and> t \<noteq> 0
    \<longrightarrow> (let st' = loadSettingsAndCache st (Some r) now
         in (map_of (persistentCache st') k = None) = isExpired now t (CACHE_TTL_DAYS st')
          \<and> (map_of (inMemoryCache st') k = None) = isExpired now t (CACHE_TTL_DAYS st')
          \<and> (\<not> isExpired now t (CACHE_TTL_DAYS st')
              \<longrightarrow> map_of (persistentCache st') k = Some \<lparr>entry_v = val, entry_t = t\<rparr>
                  \<and> map_of (inMemoryCache st') k = Some val))"
  proof
    assume a: "distinct (map fst (translationCache r))
      \<and> map_of (translationCache r) k = Some (StoredObject (Some val) (Some t))
      \<and> js_truthy val \<and> t \<noteq> 0"
    then have "decode_entry (StoredObject (Some val) (Some t)) now = Some (val, t)" by simp
    from loaded [OF _ _ this] a
    show "let st' = loadSettingsAndCache st (Some r) now
         in (map_of (persistentCache st') k = None) = isExpired now t (CACHE_TTL_DAYS st')
          \<and> (map_of (inMemoryCache st') k = None) = isExpired now t (CACHE_TTL_DAYS st')
          \<and> (\<not> isExpired now t (CACHE_TTL_DAYS st')
              \<longrightarrow> map_of (persistentCache st') k = Some \<lparr>entry_v = val, entry_t = t\<rparr>
                  \<and> map_of (inMemoryCache st') k = Some val)"
      unfolding Let_def st' by simp
  qed
  have unstamped: "distinct (map fst (translationCache r)) \<and> map_of (translationCache r) k = Some entry
      \<and> (entry = StoredString s \<and> s \<noteq> [] \<and> val = JStr s
          \<or> entry = StoredObject (Some val) None \<and> js_truthy val
          \<or> entry = StoredObject (Some val) (Some 0) \<and> js_truthy val)
    \<longrightarrow> (let st' = loadSettingsAndCache st (Some r) now
         in map_of (persistentCache st') k = Some \<lparr>entry_v = val, entry_t = now\<rparr>
          \<and> map_of (inMemoryCache st') k = Some val)"
  proof
    assume a: "distinct (map fst (translationCache r)) \<and> map_of (translationCache r) k = Some entry
      \<and> (entry = StoredString s \<and> s \<noteq> [] \<and> val = JStr s
          \<or> entry = StoredObject (Some val) None \<and> js_truthy val
          \<or> entry = StoredObject (Some val) (Some 0) \<and> js_truthy val)"
    then have "decode_entry entry now = Some (val, now)" by auto
    from loaded [OF _ _ this] a fresh
    show "let st' = loadSettingsAndCache st (Some r) now
         in map_of (persistentCache st') k = Some \<lparr>entry_v = val, entry_t = now\<rparr>
          \<and> map_of (inMemoryCache st') k = Some val"
      unfolding Let_def st' by simp
  qed
  have purged: "map_of (persistentCache (fst (purgeExpired st now writeOk))) k
      = (if isExpired now (if entry_t x \<noteq> 0 then entry_t x else now) (CACHE_TTL_DAYS st)
         then None else Some x)"
    if a: "map_of (persistentCache st) k = Some x" for x
  proof -
    from a have "k \<in> set (map fst (persistentCache st))"
      by (metis map_of_eq_None_iff option.distinct(1) set_map)
    moreover have "persistentCache (fst (purgeExpired st now writeOk))
        = fst (purge_loop (map fst (persistentCache st)) (persistentCache st) now (CACHE_TTL_DAYS st) 0)"
      by (simp add: purgeExpired_def split: prod.splits)
    ultimately show ?thesis
      using a by (simp add: purge_loop_map_of expired_at_def entry_ts_def)
  qed
  have dated: "map_of (persistentCache st) k = Some e \<and> entry_t e \<noteq> 0
    \<longrightarrow> (map_of (persistentCache (fst (purgeExpired st now writeOk))) k = None)
          = isExpired now (entry_t e) (CACHE_TTL_DAYS st)
        \<and> (\<not> isExpired now (entry_t e) (CACHE_TTL_DAYS st)
            \<longrightarrow> map_of (persistentCache (fst (purgeExpired st now writeOk))) k = Some e)"
  proof
    assume "map_of (persistentCache st) k = Some e \<and> entry_t e \<noteq> 0"
    with purged [of e]
    show "(map_of (persistentCache (fst (purgeExpired st now writeOk))) k = None)
          = isExpired now (entry_t e) (CACHE_TTL_DAYS st)
        \<and> (\<not> isExpired now (entry_t e) (CACHE_TTL_DAYS st)
            \<longrightarrow> map_of (persistentCache (fst (purgeExpired st now writeOk))) k = Some e)"
      by simp
  qed
  have undated: "map_of (persistentCache st) k = Some e \<and> entry_t e = 0
    \<longrightarrow> map_of (persistentCache (fst (purgeExpired st now writeOk))) k = Some e"
  proof
    assume "map_of (persistentCache st) k = Some e \<and> entry_t e = 0"
    with purged [of e] fresh [unfolded ttl_def]
    show "map_of (persistentCache (fst (purgeExpired st now writeOk))) k = Some e"
      by (simp add: isExpired_def)
  qed
  have disabled: "CACHE_TTL_DAYS st \<le> 0
    \<longrightarrow> purgeExpired st now True = (st, persistentCache st, Inr 0)"
  proof
    assume "CACHE_TTL_DAYS st \<le> 0"
    then have "\<forall>k\<in>set (map fst (persistentCache st)).
        \<not> expired_at (persistentCache st) now (CACHE_TTL_DAYS st) k"
      by (auto simp: expired_at_def isExpired_def split: option.splits)
    from purge_loop_nothing [OF this]
    show "purgeExpired st now True = (st, persistentCache st, Inr 0)"
      by (simp add: purgeExpired_def)
  qed
  show ?thesis
    by (rule conjI [OF stamped conjI [OF unstamped conjI [OF dated conjI [OF undated disabled]]]])
qed

theorem expired_iff_ttl_exceeded_witness:
  "isExpired 2592000002 1 30
   \<and> \<not> isExpired 2592000002 2 30
   \<and> persistentCache (loadSettingsAndCache initial_state
         (Some \<lparr>translationCache = [(''public|a||en'', StoredObject (Some (JStr ''x'')) (Some 1)),
                                     (''public|b||en'', StoredObject (Some (JStr ''y'')) (Some 2)),
                                     (''public|c||en'', StoredString ''z'')],
                cacheMaxEntries = None, cacheTTLDays = Some 30, useCloudTranslate = False,
                googleApiKey = []\<rparr>)
         2592000002)
       = [(''public|b||en'', \<lparr>entry_v = JStr ''y'', entry_t = 2\<rparr>),
          (''public|c||en'', \<lparr>entry_v = JStr ''z'', entry_t = 2592000002\<rparr>)]
   \<and> purgeExpired
        (initial_state\<lparr>persistentCache :=
           [(''public|a||en'', \<lparr>entry_v = JStr ''x'', entry_t = 1\<rparr>),
            (''public|b||en'', \<lparr>entry_v = JStr ''y'', entry_t = 2\<rparr>)]\<rparr>)
        2592000002 True
       = (initial_state\<lparr>persistentCache := [(''public|b||en'', \<lparr>entry_v = JStr ''y'', entry_t = 2\<rparr>)]\<rparr>,
          [(''public|b||en'', \<lparr>entry_v = JStr ''y'', entry_t = 2\<rparr>)], Inr 1)
   \<and> purgeExpired
        (initial_state\<lparr>CACHE_TTL_DAYS := 0, persistentCache :=
           [(''public|a||en'', \<lparr>entry_v = JStr ''x'', entry_t = 1\<rparr>)]\<rparr>)
        2592000002 True
       = (initial_state\<lparr>CACHE_TTL_DAYS := 0, persistentCache :=
           [(''public|a||en'', \<lparr>entry_v = JStr ''x'', entry_t = 1\<rparr>)]\<rparr>,
          [(''public|a||en'', \<lparr>entry_v = JStr ''x'', entry_t = 1\<rparr>)], Inr 0)"
  using expired_iff_ttl_exceeded
    [where r = "\<lparr>translationCache = [(''public|a||en'', StoredObject (Some (JStr ''x'')) (Some 1)),
                                     (''public|b||en'', StoredObject (Some (JStr ''y'')) (Some 2)),
                                     (''public|c||en'', StoredString ''z'')],
                cacheMaxEntries = None, cacheTTLDays = Some 30, useCloudTranslate = False,
                googleApiKey = []\<rparr>"
       and k = "''public|a||en''" and val = "JStr ''x''" and t = 1 and now = 2592000002
       and st = "initial_state\<lparr>persistentCache :=
           [(''public|a||en'', \<lparr>entry_v = JStr ''x'', entry_t = 1\<rparr>),
            (''public|b||en'', \<lparr>entry_v = JStr ''y'', entry_t = 2\<rparr>)]\<rparr>"
       and e = "\<lparr>entry_v = JStr ''x'', entry_t = 1\<rparr>" and writeOk = True]
    expired_iff_ttl_exceeded
    [where r = "\<lparr>translationCache = [(''public|c||en'', StoredString ''z'')],
                cacheMaxEntries = None, cacheTTLDays = Some 0, useCloudTranslate = False,
                googleApiKey = []\<rparr>"
       and k = "''public|c||en''" and entry = "StoredString ''z''" and s = "''z''"
       and val = "JStr ''z''" and now = 2592000002
       and st = "initial_state\<lparr>CACHE_TTL_DAYS := 0, persistentCache :=
           [(''public|a||en'', \<lparr>entry_v = JStr ''x'', entry_t = 1\<rparr>)]\<rparr>"
       and writeOk = True]
  by (simp add: isExpired_def initial_state_def loadSettingsAndCache_def purgeExpired_def
      entry_ts_def)

text \<open>
  The claim as stated fails for an entry stamped 0. By the claim's test it is expired
  when the TTL is 30 days and the clock reads 2592000002; the purge keeps it and replies
  that it removed nothing, and a load keeps it as well, stamped with the current time.
\<close>

theorem zero_stamp_never_expired:
  "isExpired 2592000002 0 30
   \<and> CACHE_TTL_DAYS initial_state = 30
   \<and> purgeExpired
        (initial_state\<lparr>persistentCache := [(''public|a||en'', \<lparr>entry_v = JStr ''x'', entry_t = 0\<rparr>)]\<rparr>)
        2592000002 True
       = (initial_state\<lparr>persistentCache := [(''public|a||en'', \<lparr>entry_v = JStr ''x'', entry_t = 0\<rparr>)]\<rparr>,
          [(''public|a||en'', \<lparr>entry_v = JStr ''x'', entry_t = 0\<rparr>)], Inr 0)
   \<and> persistentCache (loadSettingsAndCache initial_state
         (Some \<lparr>translationCache = [(''public|a||en'', StoredObject (Some (JStr ''x'')) (Some 0))],
                cacheMaxEntries = None, cacheTTLDays = Some 30, useCloudTranslate = False,
                googleApiKey = []\<rparr>)
         2592000002)
       = [(''public|a||en'', \<lparr>entry_v = JStr ''x'', entry_t = 2592000002\<rparr>)]
   \<and> inMemoryCache (loadSettingsAndCache initial_state
         (Some \<lparr>translationCache = [(''public|a||en'', StoredObject (Some (JStr ''x'')) (Some 0))],
                cacheMaxEntries = None, cacheTTLDays = Some 30, useCloudTranslate = False,
                googleApiKey = []\<rparr>)
         2592000002)
       = [(''public|a||en'', JStr ''x'')]"
  by (simp add: isExpired_def initial_state_def loadSettingsAndCache_def purgeExpired_def
      entry_ts_def)

text \<open>
  Claim C6, as the code has it. A flush adds to the fast tier and to the durable mirror
  only entries whose value is not empty, and a persistence write stores only such values.
  When no key of the pending items is cached and the flush obtains no translation (the
  request URL could not be built, the provider call failed, or the results were empty),
  the flush leaves both tiers as they were and answers every callback with the empty
  string. A later request for one of those keys is then not served from a tier: it is
  queued again, and its flush makes an outbound call with that text exactly when the
  request URL can be built; when it cannot, no call is made.
\<close>

theorem blank_results_never_cached:
  "(\<forall>(k, val) \<in> set (inMemoryCache (snd (snd (flushPendingRequests st fetch now)))).
       (k, val) \<in> set (inMemoryCache st) \<or> js_truthy val)
   \<and> (\<forall>(k, e) \<in> set (persistentCache (snd (snd (flushPendingRequests st fetch now)))).
       (k, e) \<in> set (persistentCache st) \<or> js_truthy (entry_v e))
   \<and> (\<forall>blob. snd (saveTimerFired st now writeOk) = Some blob
         \<longrightarrow> (\<forall>(k, e) \<in> set blob. js_truthy (entry_v e))
           \<and> persistentCache (fst (saveTimerFired st now writeOk)) = blob)
   \<and> ((\<forall>k \<in> fst ` set (pendingRequests st).
          map_of (inMemoryCache st) k = None \<and> persisted_value (persistentCache st) k = None)
      \<and> (\<forall>target tt. \<forall>x \<in> set (provider_results st fetch target tt). \<not> js_truthy x)
      \<longrightarrow> inMemoryCache (snd (snd (flushPendingRequests st fetch now))) = inMemoryCache st
        \<and> persistentCache (snd (snd (flushPendingRequests st fetch now))) = persistentCache st
        \<and> (\<forall>(r, x) \<in> set (fst (snd (flushPendingRequests st fetch now))). x = JStr [])
        \<and> (tx \<noteq> [] \<and> target \<noteq> []
            \<and> cacheKey (USE_CLOUD st) tx target \<in> fst ` set (pendingRequests st)
           \<longrightarrow> fst (doTranslate (snd (snd (flushPendingRequests st fetch now))) tx target r)
                 = Queued
             \<and> fst (flushPendingRequests
                     (snd (doTranslate (snd (snd (flushPendingRequests st fetch now))) tx target r))
                     fetch' now')
                 = (if url_builds st target [tx] then [provider_request st target [tx]] else [])))"
proof (intro conjI allI impI)
  show "\<forall>(k, val) \<in> set (inMemoryCache (snd (snd (flushPendingRequests st fetch now)))).
       (k, val) \<in> set (inMemoryCache st) \<or> js_truthy val"
    using flushPendingRequests_fast_tier [of _ _ st fetch now] by auto
  show "\<forall>(k, e) \<in> set (persistentCache (snd (snd (flushPendingRequests st fetch now)))).
       (k, e) \<in> set (persistentCache st) \<or> js_truthy (entry_v e)"
    using flushPendingRequests_durable_tier [of _ _ st fetch now] by auto
next
  fix blob
  assume w: "snd (saveTimerFired st now writeOk) = Some blob"
  then have ok: "writeOk" and blob: "blob = save_loop (inMemoryCache st) (MAX_PERSIST_ENTRIES st) now [] 0"
    by (auto simp: saveTimerFired_def Let_def split: if_splits)
  show "\<forall>(k, e) \<in> set blob. js_truthy (entry_v e)"
    unfolding blob using save_loop_entries [of _ _ "inMemoryCache st" "MAX_PERSIST_ENTRIES st" now "[]" 0]
    by auto
  show "persistentCache (fst (saveTimerFired st now writeOk)) = blob"
    using ok blob by (simp add: saveTimerFired_written)
next
  let ?st' = "snd (snd (flushPendingRequests st fetch now))"
  assume h: "(\<forall>k \<in> fst ` set (pendingRequests st).
          map_of (inMemoryCache st) k = None \<and> persisted_value (persistentCache st) k = None)
      \<and> (\<forall>target tt. \<forall>x \<in> set (provider_results st fetch target tt). \<not> js_truthy x)"
  obtain calls invoked st2 where run: "flushPendingRequests st fetch now = (calls, invoked, st2)"
    by (cases "flushPendingRequests st fetch now")
  from h have un: "\<forall>k \<in> fst ` set (pendingRequests st).
          map_of (inMemoryCache st) k = None \<and> persisted_value (persistentCache st) k = None"
    by (rule conjunct1)
  from h have fail: "\<forall>target tt. \<forall>x \<in> set (provider_results st fetch target tt). \<not> js_truthy x"
    by (rule conjunct2)
  note unchanged = flushPendingRequests_nothing [OF un fail run]
  from run have st2: "?st' = st2" and inv: "fst (snd (flushPendingRequests st fetch now)) = invoked"
    by simp_all
  from unchanged have n1: "inMemoryCache st2 = inMemoryCache st" by (elim conjE)
  from unchanged have n2: "persistentCache st2 = persistentCache st" by (elim conjE)
  from unchanged have n3: "USE_CLOUD st2 = USE_CLOUD st" by (elim conjE)
  from unchanged have n4: "GOOGLE_API_KEY st2 = GOOGLE_API_KEY st" by (elim conjE)
  from unchanged have n5: "pendingRequests st2 = []" by (elim conjE)
  from unchanged have n6: "\<forall>(r, x) \<in> set invoked. x = JStr []" by (elim conjE)
  show same_mem: "inMemoryCache ?st' = inMemoryCache st" unfolding st2 by (rule n1)
  show same_pc: "persistentCache ?st' = persistentCache st" unfolding st2 by (rule n2)
  show "\<forall>(r, x) \<in> set (fst (snd (flushPendingRequests st fetch now))). x = JStr []"
    unfolding inv by (rule n6)
  have mode: "USE_CLOUD ?st' = USE_CLOUD st" "GOOGLE_API_KEY ?st' = GOOGLE_API_KEY st"
    and idle: "pendingRequests ?st' = []"
    unfolding st2 by (rule n3, rule n4, rule n5)
  assume again: "tx \<noteq> [] \<and> target \<noteq> []
            \<and> cacheKey (USE_CLOUD st) tx target \<in> fst ` set (pendingRequests st)"
  let ?key = "cacheKey (USE_CLOUD ?st') tx target"
  from again un
  have "map_of (inMemoryCache st) (cacheKey (USE_CLOUD st) tx target) = None
      \<and> persisted_value (persistentCache st) (cacheKey (USE_CLOUD st) tx target) = None"
    by blast
  with mode same_mem same_pc
  have m: "map_of (inMemoryCache ?st') ?key = None"
    and d: "persisted_value (persistentCache ?st') ?key = None"
    by simp_all
  from again have ne: "tx \<noteq> []" "target \<noteq> []" by simp_all
  note miss = doTranslate_miss [OF ne m d, of r]
  then show "fst (doTranslate ?st' tx target r) = Queued" by simp
  let ?s = "queueTranslationRequest ?st' ?key tx target r"
  have pend: "pendingRequests ?s = [(?key, \<lparr>pr_text = tx, pr_target = target, pr_resolvers = [r]\<rparr>)]"
    by (rule queueTranslationRequest_first [OF idle])
  have m': "map_of (inMemoryCache ?s) ?key = None" using m by simp
  have d': "persisted_value (persistentCache ?s) ?key = None" using d by simp
  from flush_one_uncached(1) [OF pend ne(2) m' d', of fetch' now']
  have "fst (flushPendingRequests ?s fetch' now')
      = (if url_builds ?s target [tx] then [provider_request ?s target [tx]] else [])" .
  moreover have "provider_request ?s target [tx] = provider_request st target [tx]"
    using mode by (simp add: provider_request_def)
  moreover have "url_builds ?s target [tx] = url_builds st target [tx]"
    using mode by (simp add: url_builds_def)
  ultimately show "fst (flushPendingRequests (snd (doTranslate ?st' tx target r)) fetch' now')
                 = (if url_builds st target [tx] then [provider_request st target [tx]] else [])"
    using miss by simp
qed

theorem blank_results_never_cached_witness:
  "fst ` set (pendingRequests (snd (doTranslate initial_state ''shalom'' ''en'' 1)))
     = {''public|shalom||en''}
   \<and> map_of (inMemoryCache (snd (doTranslate initial_state ''shalom'' ''en'' 1)))
        ''public|shalom||en'' = None
   \<and> persisted_value (persistentCache (snd (doTranslate initial_state ''shalom'' ''en'' 1)))
        ''public|shalom||en'' = None
   \<and> (\<forall>target tt. provider_results (snd (doTranslate initial_state ''shalom'' ''en'' 1))
        (\<lambda>req. Response False None) target tt = [])
   \<and> cacheKey (USE_CLOUD (snd (doTranslate initial_state ''shalom'' ''en'' 1))) ''shalom'' ''en''
       = ''public|shalom||en''
   \<and> inMemoryCache (snd (snd (flushPendingRequests
        (snd (doTranslate initial_state ''shalom'' ''en'' 1)) (\<lambda>req. Response False None) 5))) = []
   \<and> persistentCache (snd (snd (flushPendingRequests
        (snd (doTranslate initial_state ''shalom'' ''en'' 1)) (\<lambda>req. Response False None) 5))) = []
   \<and> fst (snd (flushPendingRequests
        (snd (doTranslate initial_state ''shalom'' ''en'' 1)) (\<lambda>req. Response False None) 5))
       = [(1, JStr [])]
   \<and> fst (doTranslate (snd (snd (flushPendingRequests
        (snd (doTranslate initial_state ''shalom'' ''en'' 1)) (\<lambda>req. Response False None) 5)))
        ''shalom'' ''en'' 2) = Queued
   \<and> url_builds (snd (doTranslate initial_state ''shalom'' ''en'' 1)) ''en'' [''shalom'']
   \<and> fst (flushPendingRequests (snd (doTranslate (snd (snd (flushPendingRequests
        (snd (doTranslate initial_state ''shalom'' ''en'' 1)) (\<lambda>req. Response False None) 5)))
        ''shalom'' ''en'' 2)) (\<lambda>req. FetchRejects) 9)
       = [PublicRequest ''en'' [''shalom'']]"
  using blank_results_never_cached
    [where st = "snd (doTranslate initial_state ''shalom'' ''en'' 1)"
       and fetch = "\<lambda>req. Response False None" and now = 5 and writeOk = True
       and tx = "''shalom''" and target = "''en''" and r = 2
       and fetch' = "\<lambda>req. FetchRejects" and now' = 9]
  by (simp add: run_defs)

text \<open>
  The claim as stated fails for a text the request URL cannot carry. A text with a lone
  surrogate is queued in public mode; building the URL throws inside the \<^verbatim>\<open>try\<close>, the
  flush makes no call, answers the empty string and writes to neither tier. The same
  request again is queued again, and its flush again makes no outbound call, whatever
  the provider would answer. The same happens after a provider call that did fail: in
  cloud mode the text is sent and the provider answers with an error status; the API key
  is then cleared in the settings, the key of the request stays the same, and the retry,
  now on the public endpoint, makes no call.
\<close>

theorem unencodable_retry_makes_no_call:
  "lone_surrogate [CHR 0xED, CHR 0xA0, CHR 0x80]
   \<and> doTranslate initial_state [CHR 0xED, CHR 0xA0, CHR 0x80] ''en'' 1
       = (Queued, queueTranslationRequest initial_state
            (cacheKey False [CHR 0xED, CHR 0xA0, CHR 0x80] ''en'')
            [CHR 0xED, CHR 0xA0, CHR 0x80] ''en'' 1)
   \<and> fst (flushPendingRequests
        (snd (doTranslate initial_state [CHR 0xED, CHR 0xA0, CHR 0x80] ''en'' 1))
        (\<lambda>req. Response True (Some (JArr [JArr [JArr [JArr [JStr ''hello'', JNull]]]]))) 5)
       = []
   \<and> fst (snd (flushPendingRequests
        (snd (doTranslate initial_state [CHR 0xED, CHR 0xA0, CHR 0x80] ''en'' 1))
        (\<lambda>req. Response True (Some (JArr [JArr [JArr [JArr [JStr ''hello'', JNull]]]]))) 5))
       = [(1, JStr [])]
   \<and> inMemoryCache (snd (snd (flushPendingRequests
        (snd (doTranslate initial_state [CHR 0xED, CHR 0xA0, CHR 0x80] ''en'' 1))
        (\<lambda>req. Response True (Some (JArr [JArr [JArr [JArr [JStr ''hello'', JNull]]]]))) 5)))
       = []
   \<and> persistentCache (snd (snd (flushPendingRequests
        (snd (doTranslate initial_state [CHR 0xED, CHR 0xA0, CHR 0x80] ''en'' 1))
        (\<lambda>req. Response True (Some (JArr [JArr [JArr [JArr [JStr ''hello'', JNull]]]]))) 5)))
       = []
   \<and> fst (doTranslate (snd (snd (flushPendingRequests
        (snd (doTranslate initial_state [CHR 0xED, CHR 0xA0, CHR 0x80] ''en'' 1))
        (\<lambda>req. Response True (Some (JArr [JArr [JArr [JArr [JStr ''hello'', JNull]]]]))) 5)))
        [CHR 0xED, CHR 0xA0, CHR 0x80] ''en'' 2)
       = Queued
   \<and> fst (flushPendingRequests (snd (doTranslate (snd (snd (flushPendingRequests
        (snd (doTranslate initial_state [CHR 0xED, CHR 0xA0, CHR 0x80] ''en'' 1))
        (\<lambda>req. Response True (Some (JArr [JArr [JArr [JArr [JStr ''hello'', JNull]]]]))) 5)))
        [CHR 0xED, CHR 0xA0, CHR 0x80] ''en'' 2))
        (\<lambda>req. Response True (Some (JArr [JArr [JArr [JArr [JStr ''hello'', JNull]]]]))) 9)
       = []
   \<and> fst (flushPendingRequests
        (snd (doTranslate (initial_state\<lparr>USE_CLOUD := True, GOOGLE_API_KEY := ''key''\<rparr>)
           [CHR 0xED, CHR 0xA0, CHR 0x80] ''en'' 1))
        (\<lambda>req. Response False None) 5)
       = [CloudRequest ''key'' [[CHR 0xED, CHR 0xA0, CHR 0x80]] ''en'']
   \<and> fst (snd (flushPendingRequests
        (snd (doTranslate (initial_state\<lparr>USE_CLOUD := True, GOOGLE_API_KEY := ''key''\<rparr>)
           [CHR 0xED, CHR 0xA0, CHR 0x80] ''en'' 1))
        (\<lambda>req. Response False None) 5))
       = [(1, JStr [])]
   \<and> fst (doTranslate (googleApiKeyChanged (snd (snd (flushPendingRequests
        (snd (doTranslate (initial_state\<lparr>USE_CLOUD := True, GOOGLE_API_KEY := ''key''\<rparr>)
           [CHR 0xED, CHR 0xA0, CHR 0x80] ''en'' 1))
        (\<lambda>req. Response False None) 5))) None)
        [CHR 0xED, CHR 0xA0, CHR 0x80] ''en'' 2)
       = Queued
   \<and> fst (flushPendingRequests (snd (doTranslate (googleApiKeyChanged (snd (snd
        (flushPendingRequests
           (snd (doTranslate (initial_state\<lparr>USE_CLOUD := True, GOOGLE_API_KEY := ''key''\<rparr>)
              [CHR 0xED, CHR 0xA0, CHR 0x80] ''en'' 1))
           (\<lambda>req. Response False None) 5))) None)
        [CHR 0xED, CHR 0xA0, CHR 0x80] ''en'' 2))
        (\<lambda>req. Response True (Some (JArr [JArr [JArr [JArr [JStr ''hello'', JNull]]]]))) 9)
       = []"
  by (simp add: run_defs googleApiKeyChanged_def)

text \<open>
  Claim C7. With a configured maximum that is not negative, a persistence flush whose
  write to the store resolves leaves at most that many entries, under distinct keys, in
  the blob it wrote, and the mirror is that blob, however many entries the fast tier
  holds. A flush whose write is rejected writes nothing and leaves the mirror as it was.
\<close>

theorem durable_tier_within_cap:
  "(0 \<le> MAX_PERSIST_ENTRIES st \<longrightarrow>
      snd (saveTimerFired st now True) = Some (persistentCache (fst (saveTimerFired st now True)))
      \<and> int (length (persistentCache (fst (saveTimerFired st now True)))) \<le> MAX_PERSIST_ENTRIES st
      \<and> distinct (map fst (persistentCache (fst (saveTimerFired st now True)))))
   \<and> saveTimerFired st now False = (st\<lparr>saveTimer := False\<rparr>, None)"
proof (intro conjI impI)
  assume nonneg: "0 \<le> MAX_PERSIST_ENTRIES st"
  let ?blob = "save_loop (inMemoryCache st) (MAX_PERSIST_ENTRIES st) now [] 0"
  show "snd (saveTimerFired st now True) = Some (persistentCache (fst (saveTimerFired st now True)))"
    by (simp add: saveTimerFired_written)
  have "int (length ?blob) \<le> max 0 (MAX_PERSIST_ENTRIES st)"
    by (rule save_loop_length) simp
  with nonneg show "int (length (persistentCache (fst (saveTimerFired st now True))))
      \<le> MAX_PERSIST_ENTRIES st"
    by (simp add: saveTimerFired_written)
  show "distinct (map fst (persistentCache (fst (saveTimerFired st now True))))"
    by (simp add: saveTimerFired_written save_loop_distinct)
next
  show "saveTimerFired st now False = (st\<lparr>saveTimer := False\<rparr>, None)"
    by (simp add: saveTimerFired_def Let_def)
qed

theorem durable_tier_within_cap_witness:
  "0 \<le> MAX_PERSIST_ENTRIES
          (initial_state\<lparr>MAX_PERSIST_ENTRIES := 1,
             inMemoryCache := [(''public|a||en'', JStr ''x''), (''public|b||en'', JStr ''y'')]\<rparr>)
   \<and> saveTimerFired
        (initial_state\<lparr>MAX_PERSIST_ENTRIES := 1,
           inMemoryCache := [(''public|a||en'', JStr ''x''), (''public|b||en'', JStr ''y'')]\<rparr>)
        7 True
     = (initial_state\<lparr>MAX_PERSIST_ENTRIES := 1,
           inMemoryCache := [(''public|a||en'', JStr ''x''), (''public|b||en'', JStr ''y'')],
           persistentCache := [(''public|a||en'', \<lparr>entry_v = JStr ''x'', entry_t = 7\<rparr>)]\<rparr>,
        Some [(''public|a||en'', \<lparr>entry_v = JStr ''x'', entry_t = 7\<rparr>)])
   \<and> int (length (persistentCache (fst (saveTimerFired
        (initial_state\<lparr>MAX_PERSIST_ENTRIES := 1,
           inMemoryCache := [(''public|a||en'', JStr ''x''), (''public|b||en'', JStr ''y'')]\<rparr>)
        7 True)))) \<le> 1"
  using durable_tier_within_cap
    [of "initial_state\<lparr>MAX_PERSIST_ENTRIES := 1,
           inMemoryCache := [(''public|a||en'', JStr ''x''), (''public|b||en'', JStr ''y'')]\<rparr>" 7]
  by (simp add: initial_state_def saveTimerFired_def Let_def)

text \<open>
  Claim C8. A second \<open>purgeExpired\<close> at the same clock reading, whatever the durable
  tier and the TTL setting, removes nothing: it leaves the state of the first call as it
  is, hands the same blob to the store, and its reply is \<open>removed = 0\<close> (a rejection when
  that second write is rejected).
\<close>

theorem purgeExpired_twice_removes_nothing:
  "purgeExpired (fst (purgeExpired st now writeOk1)) now writeOk2
     = (fst (purgeExpired st now writeOk1),
        persistentCache (fst (purgeExpired st now writeOk1)),
        if writeOk2 then Inr 0 else Inl StorageRejected)"
proof -
  let ?pc = "persistentCache st"
  let ?ttl = "CACHE_TTL_DAYS st"
  obtain pc1 n1 where l: "purge_loop (map fst ?pc) ?pc now ?ttl 0 = (pc1, n1)"
    by (cases "purge_loop (map fst ?pc) ?pc now ?ttl 0")
  then have st1: "fst (purgeExpired st now writeOk1) = st\<lparr>persistentCache := pc1\<rparr>"
    by (simp add: purgeExpired_def)
  have "\<forall>k\<in>set (map fst pc1). \<not> expired_at pc1 now ?ttl k"
    using purge_loop_leaves_none [of ?pc now ?ttl 0] l by simp
  from purge_loop_nothing [OF this]
  have "purge_loop (map fst pc1) pc1 now ?ttl 0 = (pc1, 0)" .
  then show ?thesis
    unfolding st1 by (simp add: purgeExpired_def)
qed

text \<open>
  Claim C9. The composite key is not injective within a provider mode: the text
  \<open>a||b\<close> with target \<open>c\<close> and the text \<open>a\<close> with target \<open>b||c\<close> are different requests
  with the same key, so a value the fast tier holds for the first is what a request for
  the second gets back, with nothing queued.
\<close>

theorem cacheKey_collides:
  "cacheKey useCloud ''a||b'' ''c'' = cacheKey useCloud ''a'' ''b||c''
   \<and> (''a||b'', ''c'') \<noteq> (''a'', ''b||c'')
   \<and> (map_of (inMemoryCache st) (cacheKey (USE_CLOUD st) ''a||b'' ''c'') = Some val
        \<longrightarrow> doTranslate st ''a'' ''b||c'' resolve = (Resolved val, st))"
  by (simp add: cacheKey_def doTranslate_def)

theorem cacheKey_collides_witness:
  "map_of (inMemoryCache (snd (snd (flushPendingRequests
       (snd (doTranslate initial_state ''a||b'' ''c'' 1))
       (\<lambda>req. Response True (Some (JArr [JArr [JArr [JArr [JStr ''X'', JNull]]]]))) 5))))
     (cacheKey False ''a||b'' ''c'') = Some (JStr ''X'')
   \<and> doTranslate (snd (snd (flushPendingRequests
       (snd (doTranslate initial_state ''a||b'' ''c'' 1))
       (\<lambda>req. Response True (Some (JArr [JArr [JArr [JArr [JStr ''X'', JNull]]]]))) 5)))
       ''a'' ''b||c'' 2
     = (Resolved (JStr ''X''),
        snd (snd (flushPendingRequests
          (snd (doTranslate initial_state ''a||b'' ''c'' 1))
          (\<lambda>req. Response True (Some (JArr [JArr [JArr [JArr [JStr ''X'', JNull]]]]))) 5)))"
proof -
  let ?st = "snd (snd (flushPendingRequests
       (snd (doTranslate initial_state ''a||b'' ''c'' 1))
       (\<lambda>req. Response True (Some (JArr [JArr [JArr [JArr [JStr ''X'', JNull]]]]))) 5))"
  have mode: "USE_CLOUD ?st = False"
    by (simp add: run_defs)
  have cached: "map_of (inMemoryCache ?st) (cacheKey (USE_CLOUD ?st) ''a||b'' ''c'') = Some (JStr ''X'')"
    by (simp add: run_defs)
  have "doTranslate ?st ''a'' ''b||c'' 2 = (Resolved (JStr ''X''), ?st)"
    using cacheKey_collides [of "USE_CLOUD ?st" ?st "JStr ''X''" 2] cached by blast
  with cached mode show ?thesis by simp
qed

text \<open>
  Claim C10. A persistence flush stamps every entry it writes with the one clock reading
  taken when it starts: the time stamps of the old mirror play no part in what is
  written, the age of every written entry is zero at that moment under every TTL, and a
  purge that comes no later than the TTL after the flush removes nothing.
\<close>

theorem flush_restamps_every_entry:
  "(\<forall>(k, e) \<in> set (persistentCache (fst (saveTimerFired st now True))).
       entry_t e = now \<and> \<not> isExpired now (entry_ts e now) ttlDays)
   \<and> snd (saveTimerFired (st\<lparr>persistentCache := pc\<rparr>) now True) = snd (saveTimerFired st now True)
   \<and> (later - now \<le> CACHE_TTL_DAYS st * 86400000 \<longrightarrow>
        purgeExpired (fst (saveTimerFired st now True)) later True
          = (fst (saveTimerFired st now True),
             persistentCache (fst (saveTimerFired st now True)), Inr 0))"
proof (intro conjI impI)
  let ?blob = "save_loop (inMemoryCache st) (MAX_PERSIST_ENTRIES st) now [] 0"
  have stamped: "entry_t e = now" if "(k, e) \<in> set ?blob" for k e
    using save_loop_entries [OF that] by simp
  show "\<forall>(k, e) \<in> set (persistentCache (fst (saveTimerFired st now True))).
       entry_t e = now \<and> \<not> isExpired now (entry_ts e now) ttlDays"
    using stamped by (auto simp: saveTimerFired_written isExpired_def entry_ts_def)
  show "snd (saveTimerFired (st\<lparr>persistentCache := pc\<rparr>) now True) = snd (saveTimerFired st now True)"
    by (simp add: saveTimerFired_written)
  assume within: "later - now \<le> CACHE_TTL_DAYS st * 86400000"
  have "\<not> expired_at ?blob later (CACHE_TTL_DAYS st) k" for k
  proof (cases "map_of ?blob k")
    case None
    then show ?thesis by (simp add: expired_at_def)
  next
    case (Some e)
    then have "entry_t e = now" using stamped [of k e] by (auto dest: map_of_SomeD)
    with Some within show ?thesis
      by (auto simp: expired_at_def isExpired_def entry_ts_def)
  qed
  then have "purge_loop (map fst ?blob) ?blob later (CACHE_TTL_DAYS st) 0 = (?blob, 0)"
    by (intro purge_loop_nothing) simp
  then show "purgeExpired (fst (saveTimerFired st now True)) later True
          = (fst (saveTimerFired st now True),
             persistentCache (fst (saveTimerFired st now True)), Inr 0)"
    by (simp add: saveTimerFired_written purgeExpired_def)
qed

theorem flush_restamps_every_entry_witness:
  "snd (snd (purgeExpired
      (initial_state\<lparr>inMemoryCache := [(''public|a||en'', JStr ''x'')],
         persistentCache := [(''public|a||en'', \<lparr>entry_v = JStr ''x'', entry_t = 1\<rparr>)]\<rparr>)
      2592000002 True)) = Inr 1
   \<and> persistentCache (fst (saveTimerFired
      (initial_state\<lparr>inMemoryCache := [(''public|a||en'', JStr ''x'')],
         persistentCache := [(''public|a||en'', \<lparr>entry_v = JStr ''x'', entry_t = 1\<rparr>)]\<rparr>)
      2592000002 True))
     = [(''public|a||en'', \<lparr>entry_v = JStr ''x'', entry_t = 2592000002\<rparr>)]
   \<and> 5184000002 - 2592000002
       \<le> CACHE_TTL_DAYS
           (initial_state\<lparr>inMemoryCache := [(''public|a||en'', JStr ''x'')],
              persistentCache := [(''public|a||en'', \<lparr>entry_v = JStr ''x'', entry_t = 1\<rparr>)]\<rparr>)
         * (86400000 :: int)
   \<and> snd (snd (purgeExpired (fst (saveTimerFired
      (initial_state\<lparr>inMemoryCache := [(''public|a||en'', JStr ''x'')],
         persistentCache := [(''public|a||en'', \<lparr>entry_v = JStr ''x'', entry_t = 1\<rparr>)]\<rparr>)
      2592000002 True)) 5184000002 True)) = Inr 0"
  using flush_restamps_every_entry
    [of "initial_state\<lparr>inMemoryCache := [(''public|a||en'', JStr ''x'')],
         persistentCache := [(''public|a||en'', \<lparr>entry_v = JStr ''x'', entry_t = 1\<rparr>)]\<rparr>"
        2592000002 30 "[]" 5184000002]
  by (simp add: initial_state_def saveTimerFired_def purgeExpired_def entry_ts_def Let_def)

end
